theory Spec2Isabelle
  imports Main "HOL-Library.Word"
begin

section \<open>The tree builder of yajl (src/yajl\_tree.c)\<close>

text \<open>
  A shallow embedding of \<^verbatim>\<open>src/yajl_tree.c\<close>: the value model, the stack of open
  containers, the nine event handlers, the entry point \<^verbatim>\<open>yajl_tree_parse\<close> and the
  destructor \<^verbatim>\<open>yajl_tree_free\<close>. Memory is modelled by an allocation account (the number
  of blocks handed out by \<^verbatim>\<open>malloc\<close>/\<^verbatim>\<open>realloc\<close> and not yet given to \<^verbatim>\<open>free\<close>) and a
  list of outcomes that says which allocation requests fail.
\<close>

subsection \<open>What the file takes from outside\<close>

text \<open>
  The type tags, named as \<^verbatim>\<open>src/yajl_tree.c\<close> names them. Their values are defined in
  \<^verbatim>\<open>api/yajl_tree.h\<close>, which is not among the sources; they are taken to be seven
  different values.
\<close>

datatype ytype =
    YAJL_TYPE_STRING
  | YAJL_TYPE_NUMBER
  | YAJL_TYPE_OBJECT
  | YAJL_TYPE_ARRAY
  | YAJL_TYPE_TRUE
  | YAJL_TYPE_FALSE
  | YAJL_TYPE_NULL

text \<open>The two bits of a number's \<^verbatim>\<open>flags\<close>; \<^verbatim>\<open>flags |= F\<close> inserts \<open>F\<close>.\<close>

datatype nflag = YAJL_NUMBER_INT_VALID | YAJL_NUMBER_DOUBLE_VALID

type_synonym int64 = "64 word"

text \<open>A \<^verbatim>\<open>double\<close> is kept as its 64-bit pattern; the file never computes with it.\<close>

type_synonym double = "64 word"

text \<open>
  What \<^verbatim>\<open>strtoll\<close> and \<^verbatim>\<open>strtod\<close> report: the converted value, the offset at which
  \<^verbatim>\<open>endptr\<close> is left, and \<^verbatim>\<open>errno\<close> after the call (0 when it was not set).
\<close>

record 'a conv =
  conv_value :: 'a
  conv_end :: nat
  conv_errno :: nat

text \<open>
  The header \<^verbatim>\<open>api/yajl_tree.h\<close>, the C library and the build flags are not part of
  \<^verbatim>\<open>src/yajl_tree.c\<close>; what the handlers need of them is a parameter of the model.
  \<^item> \<open>NDEBUG\<close>: whether \<^verbatim>\<open>assert\<close> is compiled out.
  \<^item> \<open>to_number_unchecked\<close>: whether the macro \<^verbatim>\<open>YAJL_TO_NUMBER (v)\<close> yields a pointer
    other than \<^verbatim>\<open>NULL\<close> also for a value that does not carry the number tag. The
    sibling macros \<^verbatim>\<open>YAJL_TO_OBJECT\<close> and \<^verbatim>\<open>YAJL_TO_ARRAY\<close> are used in
    \<^verbatim>\<open>yajl_tree_free\<close> as tests of the tag, so they yield \<^verbatim>\<open>NULL\<close> on a value of
    another tag; for a macro written the same way the parameter is \<open>False\<close>, for an
    unchecked cast it is \<open>True\<close>.
  \<^item> \<open>strtoll\<close>, \<open>strtod\<close>: the C library's conversions.
\<close>

record env =
  NDEBUG :: bool
  to_number_unchecked :: bool
  strtoll :: "string \<Rightarrow> int64 conv"
  strtod :: "string \<Rightarrow> double conv"

subsection \<open>Values\<close>

text \<open>
  \<^verbatim>\<open>yajl_value_t\<close> is a tag and a union. A value is modelled by its tag and the member of
  the union that was written: none (\<open>Zeroed\<close>, the state \<^verbatim>\<open>value_alloc\<close> leaves after
  \<^verbatim>\<open>memset\<close>), the string, the number, the object or the array. An array pointer is an
  option: \<open>None\<close> is \<^verbatim>\<open>NULL\<close>, \<open>Some xs\<close> is a block whose first \<^verbatim>\<open>children_num\<close>
  entries are \<open>xs\<close>; \<^verbatim>\<open>children_num\<close> is the length of the lists.
\<close>

datatype yajl_value =
    Zeroed (vtype: ytype)
  | StringV (vtype: ytype) (str_value: string)
  | NumberV (vtype: ytype) (value_raw: string) (value_int: int64)
      (value_double: double) (flags: "nflag set")
  | ObjectV (vtype: ytype) (obj_keys: "yajl_value list option")
      (obj_values: "yajl_value list option")
  | ArrayV (vtype: ytype) (arr_children: "yajl_value list option")

text \<open>
  Modelled from the spec: the macros of the header \<^verbatim>\<open>api/yajl_tree.h\<close>, which is not
  among the sources. The spec has a value as a tagged variant (section 3);
  \<^verbatim>\<open>YAJL_IS_X (v)\<close> tests the tag, and \<^verbatim>\<open>YAJL_TO_X (v)\<close> is a pointer to the member
  \<open>X\<close> of the union when the tag is that of \<open>X\<close>, and \<^verbatim>\<open>NULL\<close> otherwise: this is how
  \<^verbatim>\<open>yajl_tree_free\<close>, \<^verbatim>\<open>yajl_object_free\<close> and \<^verbatim>\<open>object_add_keyval\<close> use them. The
  pointer to a member is modelled by the value it points into. \<^verbatim>\<open>YAJL_TO_NUMBER\<close> is
  the one macro the source applies to a value of another tag (in \<^verbatim>\<open>handle_number\<close>),
  so what it yields there is the parameter \<open>to_number_unchecked\<close>.
\<close>

definition YAJL_IS_STRING :: "yajl_value \<Rightarrow> bool" where
  "YAJL_IS_STRING v = (vtype v = YAJL_TYPE_STRING)"

definition YAJL_IS_NUMBER :: "yajl_value \<Rightarrow> bool" where
  "YAJL_IS_NUMBER v = (vtype v = YAJL_TYPE_NUMBER)"

definition YAJL_IS_OBJECT :: "yajl_value \<Rightarrow> bool" where
  "YAJL_IS_OBJECT v = (vtype v = YAJL_TYPE_OBJECT)"

definition YAJL_IS_ARRAY :: "yajl_value \<Rightarrow> bool" where
  "YAJL_IS_ARRAY v = (vtype v = YAJL_TYPE_ARRAY)"

definition YAJL_TO_STRING :: "yajl_value \<Rightarrow> yajl_value option" where
  "YAJL_TO_STRING v = (if YAJL_IS_STRING v then Some v else None)"

definition YAJL_TO_NUMBER :: "env \<Rightarrow> yajl_value \<Rightarrow> yajl_value option" where
  "YAJL_TO_NUMBER e v = (if YAJL_IS_NUMBER v \<or> to_number_unchecked e then Some v else None)"

definition YAJL_TO_OBJECT :: "yajl_value \<Rightarrow> yajl_value option" where
  "YAJL_TO_OBJECT v = (if YAJL_IS_OBJECT v then Some v else None)"

definition YAJL_TO_ARRAY :: "yajl_value \<Rightarrow> yajl_value option" where
  "YAJL_TO_ARRAY v = (if YAJL_IS_ARRAY v then Some v else None)"

lemmas macro_defs =
  YAJL_IS_STRING_def YAJL_IS_NUMBER_def YAJL_IS_OBJECT_def YAJL_IS_ARRAY_def
  YAJL_TO_STRING_def YAJL_TO_NUMBER_def YAJL_TO_OBJECT_def YAJL_TO_ARRAY_def

text \<open>
  The members of the union as the code reads them. A member that was never written reads
  as zero (\<^verbatim>\<open>NULL\<close>, no children). \<^verbatim>\<open>data.string.value\<close> and \<^verbatim>\<open>data.number.value_raw\<close>
  are both the first member of their struct, so they are the same word of the union.
\<close>

fun string_member :: "yajl_value \<Rightarrow> string option" where
  "string_member (StringV t s) = Some s"
| "string_member (NumberV t r i d f) = Some r"
| "string_member v = None"

fun keys_member :: "yajl_value \<Rightarrow> yajl_value list option" where
  "keys_member (ObjectV t ks vs) = ks"
| "keys_member v = None"

fun values_member :: "yajl_value \<Rightarrow> yajl_value list option" where
  "values_member (ObjectV t ks vs) = vs"
| "values_member v = None"

fun children_member :: "yajl_value \<Rightarrow> yajl_value list option" where
  "children_member (ArrayV t cs) = cs"
| "children_member v = None"

fun entries :: "'a list option \<Rightarrow> 'a list" where
  "entries None = []"
| "entries (Some xs) = xs"

subsection \<open>The allocation account\<close>

text \<open>
  \<open>live\<close> counts the blocks obtained from \<^verbatim>\<open>malloc\<close> and \<^verbatim>\<open>realloc\<close> by this file and
  not yet freed; \<open>handles\<close> counts the tokenizer handles obtained from \<^verbatim>\<open>yajl_alloc\<close>
  and not yet given to \<^verbatim>\<open>yajl_free\<close>. \<open>outcomes\<close> lists the outcome of the coming
  allocation requests (\<open>False\<close>: the request returns \<^verbatim>\<open>NULL\<close>); once it is used up every
  request succeeds.
\<close>

record heap =
  live :: nat
  handles :: nat
  outcomes :: "bool list"

definition malloc :: "heap \<Rightarrow> bool \<times> heap" where
  "malloc h =
     (case outcomes h of
        [] \<Rightarrow> (True, h\<lparr>live := live h + 1\<rparr>)
      | b # bs \<Rightarrow> (b, h\<lparr>live := (if b then live h + 1 else live h), outcomes := bs\<rparr>))"

text \<open>
  \<^verbatim>\<open>realloc (p, n)\<close>: a new block when \<open>p\<close> is \<^verbatim>\<open>NULL\<close>, the same block resized
  otherwise; on failure the old block is untouched.
\<close>

definition realloc :: "'a option \<Rightarrow> heap \<Rightarrow> bool \<times> heap" where
  "realloc p h =
     (case outcomes h of
        [] \<Rightarrow> (True, h\<lparr>live := (if p = None then live h + 1 else live h)\<rparr>)
      | b # bs \<Rightarrow>
          (b, h\<lparr>live := (if b \<and> p = None then live h + 1 else live h), outcomes := bs\<rparr>))"

definition free :: "heap \<Rightarrow> heap" where
  "free h = h\<lparr>live := live h - 1\<rparr>"

definition value_alloc :: "ytype \<Rightarrow> heap \<Rightarrow> yajl_value option \<times> heap" where
  "value_alloc t h =
     (case malloc h of (ok, h') \<Rightarrow> if ok then (Some (Zeroed t), h') else (None, h'))"

subsection \<open>The stack of open containers\<close>

text \<open>
  \<^verbatim>\<open>stack_elem_t\<close> without its \<^verbatim>\<open>next\<close> pointer: the stack is the list of its elements,
  top first, and \<^verbatim>\<open>ctx->stack == NULL\<close> is the empty list.
\<close>

record stack_elem_t =
  elem_key :: "yajl_value option"
  elem_value :: yajl_value

record context_t =
  stack :: "stack_elem_t list"
  root :: "yajl_value option"

text \<open>
  A call either returns, or the program stops: at a failed \<^verbatim>\<open>assert\<close>, or at a store
  through a \<^verbatim>\<open>NULL\<close> pointer.
\<close>

datatype fault = Assert_failed | Null_dereference

datatype 'a res = Ret 'a | Crash fault

datatype errno = E_OK | EINVAL | ENOMEM

datatype status = STATUS_CONTINUE | STATUS_ABORT

definition context_push ::
  "env \<Rightarrow> context_t \<Rightarrow> yajl_value \<Rightarrow> heap \<Rightarrow> (errno \<times> context_t \<times> heap) res" where
  "context_push e ctx v h =
     (case malloc h of (ok, h') \<Rightarrow>
        if \<not> ok then Ret (ENOMEM, ctx, h')
        else if \<not> NDEBUG e \<and> \<not> (stack ctx = [] \<or> YAJL_IS_OBJECT v \<or> YAJL_IS_ARRAY v)
        then Crash Assert_failed
        else Ret (E_OK,
               ctx\<lparr>stack := \<lparr>elem_key = None, elem_value = v\<rparr> # stack ctx\<rparr>, h'))"

definition context_pop :: "context_t \<Rightarrow> heap \<Rightarrow> yajl_value option \<times> context_t \<times> heap" where
  "context_pop ctx h =
     (case stack ctx of
        [] \<Rightarrow> (None, ctx, h)
      | s # rest \<Rightarrow> (Some (elem_value s), ctx\<lparr>stack := rest\<rparr>, free h))"

text \<open>
  \<^verbatim>\<open>object_add_keyval\<close> and \<^verbatim>\<open>array_add_value\<close> change the container in place; the
  model returns it. Their callers pass pointers that are not \<^verbatim>\<open>NULL\<close>, so the
  \<^verbatim>\<open>NULL\<close> tests on the arguments have no branch here.
\<close>

definition object_add_keyval ::
  "yajl_value \<Rightarrow> yajl_value \<Rightarrow> yajl_value \<Rightarrow> heap \<Rightarrow> errno \<times> yajl_value \<times> heap" where
  "object_add_keyval obj k v h =
     (if \<not> YAJL_IS_STRING k then (EINVAL, obj, h)
      else
        (case YAJL_TO_OBJECT obj of
           None \<Rightarrow> (EINVAL, obj, h)
         | Some ob \<Rightarrow>
             (case realloc (keys_member ob) h of (ok1, h1) \<Rightarrow>
                if \<not> ok1 then (ENOMEM, obj, h1)
                else
                  let ob1 = ObjectV (vtype ob) (Some (entries (keys_member ob)))
                              (values_member ob)
                  in (case realloc (values_member ob1) h1 of (ok2, h2) \<Rightarrow>
                        if \<not> ok2 then (ENOMEM, ob1, h2)
                        else (E_OK,
                              ObjectV (vtype ob)
                                (Some (entries (keys_member ob1) @ [k]))
                                (Some (entries (values_member ob1) @ [v])), h2)))))"

definition array_add_value ::
  "yajl_value \<Rightarrow> yajl_value \<Rightarrow> heap \<Rightarrow> errno \<times> yajl_value \<times> heap" where
  "array_add_value arr v h =
     (case YAJL_TO_ARRAY arr of
        None \<Rightarrow> (EINVAL, arr, h)
      | Some a \<Rightarrow>
          (case realloc (children_member a) h of (ok, h1) \<Rightarrow>
             if \<not> ok then (ENOMEM, arr, h1)
             else (E_OK,
                   ArrayV (vtype a) (Some (entries (children_member a) @ [v])), h1)))"

definition context_add_value ::
  "env \<Rightarrow> context_t \<Rightarrow> yajl_value \<Rightarrow> heap \<Rightarrow> (errno \<times> context_t \<times> heap) res" where
  "context_add_value e ctx v h =
     (case stack ctx of
        [] \<Rightarrow>
          if \<not> NDEBUG e \<and> root ctx \<noteq> None then Crash Assert_failed
          else Ret (E_OK, ctx\<lparr>root := Some v\<rparr>, h)
      | s # rest \<Rightarrow>
          if YAJL_IS_OBJECT (elem_value s) then
            (case elem_key s of
               None \<Rightarrow>
                 if \<not> YAJL_IS_STRING v then Ret (EINVAL, ctx, h)
                 else Ret (E_OK, ctx\<lparr>stack := s\<lparr>elem_key := Some v\<rparr> # rest\<rparr>, h)
             | Some k \<Rightarrow>
                 (case object_add_keyval (elem_value s) k v h of (r, obj, h') \<Rightarrow>
                    Ret (r, ctx\<lparr>stack := \<lparr>elem_key = None, elem_value = obj\<rparr> # rest\<rparr>,
                         h')))
          else if YAJL_IS_ARRAY (elem_value s) then
            (case array_add_value (elem_value s) v h of (r, arr, h') \<Rightarrow>
               Ret (r, ctx\<lparr>stack := s\<lparr>elem_value := arr\<rparr> # rest\<rparr>, h'))
          else Ret (EINVAL, ctx, h))"

subsection \<open>The event handlers\<close>

text \<open>\<^verbatim>\<open>(context_add_value (ctx, v) == 0) ? STATUS_CONTINUE : STATUS_ABORT\<close>.\<close>

fun to_status :: "(errno \<times> context_t \<times> heap) res \<Rightarrow> (status \<times> context_t \<times> heap) res" where
  "to_status (Crash f) = Crash f"
| "to_status (Ret (r, ctx, h)) =
     Ret (if r = E_OK then STATUS_CONTINUE else STATUS_ABORT, ctx, h)"

definition handle_string ::
  "env \<Rightarrow> string \<Rightarrow> context_t \<Rightarrow> heap \<Rightarrow> (status \<times> context_t \<times> heap) res" where
  "handle_string e str ctx h =
     (case value_alloc YAJL_TYPE_STRING h of
        (None, h1) \<Rightarrow> Ret (STATUS_ABORT, ctx, h1)
      | (Some v, h1) \<Rightarrow>
          (case YAJL_TO_STRING v of
             None \<Rightarrow> Crash Null_dereference
           | Some s \<Rightarrow>
               (case malloc h1 of (ok, h2) \<Rightarrow>
                  if \<not> ok then Ret (STATUS_ABORT, ctx, free h2)
                  else to_status (context_add_value e ctx (StringV (vtype s) str) h2))))"

text \<open>\<^verbatim>\<open>*endptr == 0\<close>: the conversion stopped at the terminating (or a contained) NUL.\<close>

definition at_nul :: "string \<Rightarrow> nat \<Rightarrow> bool" where
  "at_nul s i = (i = length s \<or> (i < length s \<and> s ! i = CHR 0x00))"

text \<open>
  \<^verbatim>\<open>handle_number\<close> asks \<^verbatim>\<open>value_alloc\<close> for a value of type \<^verbatim>\<open>YAJL_TYPE_STRING\<close> and
  then writes the number through \<^verbatim>\<open>n = YAJL_TO_NUMBER (v)\<close>; where the macro yields
  \<^verbatim>\<open>NULL\<close> the first store \<^verbatim>\<open>n->value_raw = ...\<close> goes through a null pointer. (The
  other handlers apply \<^verbatim>\<open>YAJL_TO_X\<close> to a value they have just tagged \<open>X\<close>.)
\<close>

text \<open>
  The stores of \<^verbatim>\<open>handle_number\<close> into the number member of a value whose tag is \<open>t\<close>:
  the copy of the literal, the two conversions and the flags.
\<close>

definition number_stores :: "env \<Rightarrow> ytype \<Rightarrow> string \<Rightarrow> yajl_value" where
  "number_stores e t s =
     (let i = strtoll e s;
          f1 = (if conv_errno i = 0 \<and> at_nul s (conv_end i)
                then {YAJL_NUMBER_INT_VALID} else {});
          d = strtod e s;
          f2 = (if conv_errno d = 0 \<and> at_nul s (conv_end d)
                then insert YAJL_NUMBER_DOUBLE_VALID f1 else f1)
      in NumberV t s (conv_value i) (conv_value d) f2)"

definition handle_number ::
  "env \<Rightarrow> string \<Rightarrow> context_t \<Rightarrow> heap \<Rightarrow> (status \<times> context_t \<times> heap) res" where
  "handle_number e str ctx h =
     (case value_alloc YAJL_TYPE_STRING h of
        (None, h1) \<Rightarrow> Ret (STATUS_ABORT, ctx, h1)
      | (Some v, h1) \<Rightarrow>
          (case YAJL_TO_NUMBER e v of
             None \<Rightarrow> Crash Null_dereference
           | Some n \<Rightarrow>
               (case malloc h1 of (ok, h2) \<Rightarrow>
                  if \<not> ok then Ret (STATUS_ABORT, ctx, free h2)
                  else to_status
                         (context_add_value e ctx (number_stores e (vtype n) str) h2))))"

definition handle_start_map ::
  "env \<Rightarrow> context_t \<Rightarrow> heap \<Rightarrow> (status \<times> context_t \<times> heap) res" where
  "handle_start_map e ctx h =
     (case value_alloc YAJL_TYPE_OBJECT h of
        (None, h1) \<Rightarrow> Ret (STATUS_ABORT, ctx, h1)
      | (Some v, h1) \<Rightarrow>
          (case YAJL_TO_OBJECT v of
             None \<Rightarrow> Crash Null_dereference
           | Some ob \<Rightarrow> to_status (context_push e ctx (ObjectV (vtype ob) None None) h1)))"

definition handle_end_map ::
  "env \<Rightarrow> context_t \<Rightarrow> heap \<Rightarrow> (status \<times> context_t \<times> heap) res" where
  "handle_end_map e ctx h =
     (case context_pop ctx h of
        (None, ctx1, h1) \<Rightarrow> Ret (STATUS_ABORT, ctx1, h1)
      | (Some v, ctx1, h1) \<Rightarrow> to_status (context_add_value e ctx1 v h1))"

definition handle_start_array ::
  "env \<Rightarrow> context_t \<Rightarrow> heap \<Rightarrow> (status \<times> context_t \<times> heap) res" where
  "handle_start_array e ctx h =
     (case value_alloc YAJL_TYPE_ARRAY h of
        (None, h1) \<Rightarrow> Ret (STATUS_ABORT, ctx, h1)
      | (Some v, h1) \<Rightarrow>
          (case YAJL_TO_ARRAY v of
             None \<Rightarrow> Crash Null_dereference
           | Some a \<Rightarrow> to_status (context_push e ctx (ArrayV (vtype a) None) h1)))"

definition handle_end_array ::
  "env \<Rightarrow> context_t \<Rightarrow> heap \<Rightarrow> (status \<times> context_t \<times> heap) res" where
  "handle_end_array e ctx h =
     (case context_pop ctx h of
        (None, ctx1, h1) \<Rightarrow> Ret (STATUS_ABORT, ctx1, h1)
      | (Some v, ctx1, h1) \<Rightarrow> to_status (context_add_value e ctx1 v h1))"

definition handle_boolean ::
  "env \<Rightarrow> bool \<Rightarrow> context_t \<Rightarrow> heap \<Rightarrow> (status \<times> context_t \<times> heap) res" where
  "handle_boolean e b ctx h =
     (case value_alloc (if b then YAJL_TYPE_TRUE else YAJL_TYPE_FALSE) h of
        (None, h1) \<Rightarrow> Ret (STATUS_ABORT, ctx, h1)
      | (Some v, h1) \<Rightarrow> to_status (context_add_value e ctx v h1))"

definition handle_null ::
  "env \<Rightarrow> context_t \<Rightarrow> heap \<Rightarrow> (status \<times> context_t \<times> heap) res" where
  "handle_null e ctx h =
     (case value_alloc YAJL_TYPE_NULL h of
        (None, h1) \<Rightarrow> Ret (STATUS_ABORT, ctx, h1)
      | (Some v, h1) \<Rightarrow> to_status (context_add_value e ctx v h1))"

subsection \<open>The entry point\<close>

text \<open>
  Modelled from the spec: the tokenizer (\<^verbatim>\<open>yajl_alloc\<close>, \<^verbatim>\<open>yajl_parse\<close>,
  \<^verbatim>\<open>yajl_parse_complete\<close>, \<^verbatim>\<open>yajl_free\<close> of \<^verbatim>\<open>api/yajl_parse.h\<close>) is not among the
  sources. The spec (sections 5 and 6) has it deliver the events to the handlers in
  order, one call per event, and stop at the first handler that signals failure. What
  it does with an input is a parameter of the model: the events it delivers while
  \<^verbatim>\<open>yajl_parse\<close> reads the input and the status \<^verbatim>\<open>yajl_parse\<close> then returns, and the same
  for \<^verbatim>\<open>yajl_parse_complete\<close>. Of the statuses the source names \<^verbatim>\<open>yajl_status_ok\<close>
  only; the others stand for every status that is not \<^verbatim>\<open>yajl_status_ok\<close>.
\<close>

datatype event =
    Ev_null
  | Ev_boolean bool
  | Ev_number string
  | Ev_string string
  | Ev_start_map
  | Ev_map_key string
  | Ev_end_map
  | Ev_start_array
  | Ev_end_array

datatype yajl_status =
    yajl_status_ok
  | yajl_status_client_canceled
  | yajl_status_insufficient_data
  | yajl_status_error

record lexer_run =
  feed_events :: "event list"
  feed_status :: yajl_status
  complete_events :: "event list"
  complete_status :: yajl_status

text \<open>
  The table \<^verbatim>\<open>callbacks\<close> of \<^verbatim>\<open>yajl_tree_parse\<close>: the integer and double callbacks are
  \<^verbatim>\<open>NULL\<close>, so every number comes through \<^verbatim>\<open>handle_number\<close>; a map key comes through
  \<^verbatim>\<open>handle_string\<close>.
\<close>

fun callbacks ::
  "env \<Rightarrow> event \<Rightarrow> context_t \<Rightarrow> heap \<Rightarrow> (status \<times> context_t \<times> heap) res" where
  "callbacks e Ev_null = handle_null e"
| "callbacks e (Ev_boolean b) = handle_boolean e b"
| "callbacks e (Ev_number s) = handle_number e s"
| "callbacks e (Ev_string s) = handle_string e s"
| "callbacks e Ev_start_map = handle_start_map e"
| "callbacks e (Ev_map_key s) = handle_string e s"
| "callbacks e Ev_end_map = handle_end_map e"
| "callbacks e Ev_start_array = handle_start_array e"
| "callbacks e Ev_end_array = handle_end_array e"

fun deliver ::
  "env \<Rightarrow> event list \<Rightarrow> context_t \<Rightarrow> heap \<Rightarrow> (status \<times> context_t \<times> heap) res" where
  "deliver e [] ctx h = Ret (STATUS_CONTINUE, ctx, h)"
| "deliver e (ev # evs) ctx h =
     (case callbacks e ev ctx h of
        Crash f \<Rightarrow> Crash f
      | Ret (s, ctx', h') \<Rightarrow>
          if s = STATUS_CONTINUE then deliver e evs ctx' h' else Ret (s, ctx', h'))"

definition yajl_parse ::
  "env \<Rightarrow> event list \<Rightarrow> yajl_status \<Rightarrow> context_t \<Rightarrow> heap
     \<Rightarrow> (yajl_status \<times> context_t \<times> heap) res" where
  "yajl_parse e evs st ctx h =
     (case deliver e evs ctx h of
        Crash f \<Rightarrow> Crash f
      | Ret (s, ctx', h') \<Rightarrow>
          Ret (if s = STATUS_CONTINUE then st else yajl_status_client_canceled, ctx', h'))"

text \<open>\<^verbatim>\<open>yajl_alloc\<close> is taken to succeed: the source does not test its result.\<close>

definition yajl_alloc :: "heap \<Rightarrow> heap" where
  "yajl_alloc h = h\<lparr>handles := handles h + 1\<rparr>"

definition yajl_free :: "heap \<Rightarrow> heap" where
  "yajl_free h = h\<lparr>handles := handles h - 1\<rparr>"

text \<open>
  \<^verbatim>\<open>yajl_tree_parse\<close>: the result is the returned pointer (\<open>None\<close> is \<^verbatim>\<open>NULL\<close>) and the
  allocation account the call leaves behind.
\<close>

definition yajl_tree_parse ::
  "env \<Rightarrow> lexer_run \<Rightarrow> heap \<Rightarrow> (yajl_value option \<times> heap) res" where
  "yajl_tree_parse e run h =
     (let ctx = \<lparr>stack = [], root = None\<rparr>;
          h0 = yajl_alloc h
      in case yajl_parse e (feed_events run) (feed_status run) ctx h0 of
           Crash f \<Rightarrow> Crash f
         | Ret (st1, ctx1, h1) \<Rightarrow>
             if st1 \<noteq> yajl_status_ok then Ret (None, h1)
             else
               (case yajl_parse e (complete_events run) (complete_status run) ctx1 h1 of
                  Crash f \<Rightarrow> Crash f
                | Ret (st2, ctx2, h2) \<Rightarrow>
                    if st2 \<noteq> yajl_status_ok then Ret (None, h2)
                    else Ret (root ctx2, yajl_free h2)))"

subsection \<open>The destructor\<close>

text \<open>
  The destructor is modelled by the list of blocks it hands to \<^verbatim>\<open>free\<close>, in the order
  of the calls. A block is named by the node it belongs to and its part in the node; a
  node is named by its position in the tree (in C, by its address). \<^verbatim>\<open>free (NULL)\<close>
  releases nothing and leaves no entry.
\<close>

datatype sel = Key nat | Val nat | Child nat

datatype part = Node | Buffer | Keys_array | Values_array | Children_array

type_synonym path = "sel list"

type_synonym block = "path \<times> part"

fun free_ptr :: "'a option \<Rightarrow> block \<Rightarrow> block list" where
  "free_ptr None b = []"
| "free_ptr (Some x) b = [b]"

lemma size_keys_values_member:
  "size_list size (entries (keys_member v)) + size_list size (entries (values_member v))
     \<le> size v"
  by (cases v; cases "obj_keys v"; cases "obj_values v") auto

lemma size_children_member: "size_list size (entries (children_member v)) \<le> size v"
  by (cases v; cases "arr_children v") auto

lemma YAJL_TO_OBJECT_Some: "YAJL_TO_OBJECT v = Some ob \<Longrightarrow> ob = v"
  by (simp add: YAJL_TO_OBJECT_def split: if_splits)

lemma YAJL_TO_ARRAY_Some: "YAJL_TO_ARRAY v = Some a \<Longrightarrow> a = v"
  by (simp add: YAJL_TO_ARRAY_def split: if_splits)

text \<open>
  The argument of \<^verbatim>\<open>yajl_tree_free\<close> is a pointer: \<open>None\<close> is \<^verbatim>\<open>NULL\<close>. In its first
  two branches the tag has been tested, so \<^verbatim>\<open>YAJL_TO_STRING (v)\<close> and
  \<^verbatim>\<open>YAJL_TO_NUMBER (v)\<close> are the members; \<^verbatim>\<open>s->value\<close> and \<^verbatim>\<open>n->value_raw\<close> are read by
  \<open>string_member\<close>. The two loops run over the first \<^verbatim>\<open>children_num\<close> entries of the
  arrays, that is over the lists.
\<close>

function yajl_tree_free :: "path \<Rightarrow> yajl_value option \<Rightarrow> block list"
  and yajl_object_free :: "path \<Rightarrow> yajl_value \<Rightarrow> block list"
  and yajl_array_free :: "path \<Rightarrow> yajl_value \<Rightarrow> block list"
  and object_free_loop :: "path \<Rightarrow> nat \<Rightarrow> yajl_value list \<Rightarrow> yajl_value list \<Rightarrow> block list"
  and array_free_loop :: "path \<Rightarrow> nat \<Rightarrow> yajl_value list \<Rightarrow> block list"
where
  "yajl_tree_free p None = []"
| "yajl_tree_free p (Some v) =
     (if YAJL_IS_STRING v then free_ptr (string_member v) (p, Buffer) @ [(p, Node)]
      else if YAJL_IS_NUMBER v then free_ptr (string_member v) (p, Buffer) @ [(p, Node)]
      else if YAJL_TO_OBJECT v \<noteq> None then yajl_object_free p v
      else if YAJL_TO_ARRAY v \<noteq> None then yajl_array_free p v
      else [(p, Node)])"
| "yajl_object_free p v =
     (case YAJL_TO_OBJECT v of
        None \<Rightarrow> []
      | Some ob \<Rightarrow>
          object_free_loop p 0 (entries (keys_member ob)) (entries (values_member ob))
          @ free_ptr (keys_member ob) (p, Keys_array)
          @ free_ptr (values_member ob) (p, Values_array)
          @ [(p, Node)])"
| "yajl_array_free p v =
     (case YAJL_TO_ARRAY v of
        None \<Rightarrow> []
      | Some a \<Rightarrow>
          array_free_loop p 0 (entries (children_member a))
          @ free_ptr (children_member a) (p, Children_array)
          @ [(p, Node)])"
| "object_free_loop p i (k # ks) (x # xs) =
     yajl_tree_free (p @ [Key i]) (Some k) @ yajl_tree_free (p @ [Val i]) (Some x)
     @ object_free_loop p (Suc i) ks xs"
| "object_free_loop p i [] xs = []"
| "object_free_loop p i (k # ks) [] = []"
| "array_free_loop p i (c # cs) =
     yajl_tree_free (p @ [Child i]) (Some c) @ array_free_loop p (Suc i) cs"
| "array_free_loop p i [] = []"
  by pat_completeness auto
termination
  apply (relation "measure (\<lambda>x. case x of
         Inl (Inl (p, vo)) \<Rightarrow> (case vo of None \<Rightarrow> 0 | Some v \<Rightarrow> 3 * size v + 2)
       | Inl (Inr (p, v)) \<Rightarrow> 3 * size v + 1
       | Inr (Inl (p, v)) \<Rightarrow> 3 * size v + 1
       | Inr (Inr (Inl (p, i, ks, xs))) \<Rightarrow> 3 * (size_list size ks + size_list size xs)
       | Inr (Inr (Inr (p, i, cs))) \<Rightarrow> 3 * size_list size cs)")
  apply (auto dest!: YAJL_TO_OBJECT_Some YAJL_TO_ARRAY_Some)
  subgoal for v using size_keys_values_member [of v] by linarith
  subgoal for v using size_children_member [of v] by linarith
  done

subsection \<open>Documents\<close>

text \<open>
  A well-formed document, the events a tokenizer delivers for it, and the tree the
  handlers build from them: \<open>tree_of\<close> is what the parser is proved to return. A number
  is in the tree as \<^verbatim>\<open>handle_number\<close> stores it, behind the string tag.
\<close>

datatype json =
    JNull
  | JBool bool
  | JNumber string
  | JString string
  | JArray "json list"
  | JObject "(string \<times> json) list"

fun events_of :: "json \<Rightarrow> event list" where
  "events_of JNull = [Ev_null]"
| "events_of (JBool b) = [Ev_boolean b]"
| "events_of (JNumber s) = [Ev_number s]"
| "events_of (JString s) = [Ev_string s]"
| "events_of (JArray xs) = Ev_start_array # concat (map events_of xs) @ [Ev_end_array]"
| "events_of (JObject kvs) =
     Ev_start_map # concat (map (\<lambda>(k, x). Ev_map_key k # events_of x) kvs) @ [Ev_end_map]"

fun has_number :: "json \<Rightarrow> bool" where
  "has_number (JNumber s) = True"
| "has_number (JArray xs) = list_ex has_number xs"
| "has_number (JObject kvs) = list_ex (\<lambda>(k, x). has_number x) kvs"
| "has_number d = False"

fun depth :: "json \<Rightarrow> nat" where
  "depth (JArray xs) = Suc (fold max (map depth xs) 0)"
| "depth (JObject kvs) = Suc (fold max (map (\<lambda>(k, x). depth x) kvs) 0)"
| "depth d = 0"

definition some_unless_empty :: "'a list \<Rightarrow> 'a list option" where
  "some_unless_empty xs = (if xs = [] then None else Some xs)"

fun tree_of :: "env \<Rightarrow> json \<Rightarrow> yajl_value" where
  "tree_of e JNull = Zeroed YAJL_TYPE_NULL"
| "tree_of e (JBool b) = Zeroed (if b then YAJL_TYPE_TRUE else YAJL_TYPE_FALSE)"
| "tree_of e (JNumber s) = number_stores e YAJL_TYPE_STRING s"
| "tree_of e (JString s) = StringV YAJL_TYPE_STRING s"
| "tree_of e (JArray xs) = ArrayV YAJL_TYPE_ARRAY (some_unless_empty (map (tree_of e) xs))"
| "tree_of e (JObject kvs) =
     ObjectV YAJL_TYPE_OBJECT
       (some_unless_empty (map (\<lambda>(k, x). StringV YAJL_TYPE_STRING k) kvs))
       (some_unless_empty (map (\<lambda>(k, x). tree_of e x) kvs))"

text \<open>The blocks a tree holds: one per node, one per buffer, one per array.\<close>

fun allocated :: "'a option \<Rightarrow> nat" where
  "allocated None = 0"
| "allocated (Some x) = 1"

lemma size_entries:
  assumes "x \<in> set (entries xs)"
  shows "size x < Suc (size_option (size_list size) xs)"
proof (cases xs)
  case None
  with assms show ?thesis by simp
next
  case (Some ys)
  with assms have "x \<in> set ys" by simp
  then have "size x \<le> size_list size ys" by (rule size_list_estimation') simp
  with Some show ?thesis by simp
qed

function blocks :: "yajl_value \<Rightarrow> nat" where
  "blocks (Zeroed t) = 1"
| "blocks (StringV t s) = 2"
| "blocks (NumberV t r i d f) = 2"
| "blocks (ObjectV t ks vs) =
     1 + allocated ks + allocated vs
       + sum_list (map blocks (entries ks)) + sum_list (map blocks (entries vs))"
| "blocks (ArrayV t cs) = 1 + allocated cs + sum_list (map blocks (entries cs))"
  by pat_completeness auto
termination
  apply (relation "measure size")
  apply simp_all
  subgoal for ks vs x using size_entries [of x ks] by linarith
  subgoal for ks vs x using size_entries [of x vs] by linarith
  subgoal for cs x using size_entries [of x cs] by linarith
  done

text \<open>
  A tokenizer run for a document: the events of the document, delivered while the input
  is read or when its end is signalled, and both calls reporting success.
\<close>

definition tokenizes :: "lexer_run \<Rightarrow> json \<Rightarrow> bool" where
  "tokenizes run d =
     (feed_events run @ complete_events run = events_of d
      \<and> feed_status run = yajl_status_ok \<and> complete_status run = yajl_status_ok)"

definition document_run :: "json \<Rightarrow> lexer_run" where
  "document_run d =
     \<lparr>feed_events = events_of d, feed_status = yajl_status_ok,
      complete_events = [], complete_status = yajl_status_ok\<rparr>"

text \<open>
  A number event gets past \<^verbatim>\<open>handle_number\<close> only where \<^verbatim>\<open>YAJL_TO_NUMBER\<close> yields a
  pointer for the string-tagged value the handler allocates.
\<close>

definition numbers_ok :: "env \<Rightarrow> json \<Rightarrow> bool" where
  "numbers_ok e d = (to_number_unchecked e \<or> \<not> has_number d)"

text \<open>The document of \<open>n + 1\<close> arrays, each inside the other.\<close>

fun nested :: "nat \<Rightarrow> json" where
  "nested 0 = JArray []"
| "nested (Suc n) = JArray [nested n]"

text \<open>
  What remains to be done after a call of \<^verbatim>\<open>context_add_value\<close>, and an array that
  has grown by some entries.
\<close>

definition then_deliver ::
  "env \<Rightarrow> event list \<Rightarrow> (errno \<times> context_t \<times> heap) res \<Rightarrow> (status \<times> context_t \<times> heap) res" where
  "then_deliver e rest r =
     (case r of
        Crash f \<Rightarrow> Crash f
      | Ret (r, ctx, h) \<Rightarrow>
          if r = E_OK then deliver e rest ctx h else Ret (STATUS_ABORT, ctx, h))"

definition grow :: "'a list option \<Rightarrow> 'a list \<Rightarrow> 'a list option" where
  "grow cs ys = (if ys = [] then cs else Some (entries cs @ ys))"

subsection \<open>The states of a parse\<close>

text \<open>
  The states of a parse: the empty context \<^verbatim>\<open>yajl_tree_parse\<close> starts with, and what a
  callback leaves when it returns.
\<close>

inductive reachable :: "env \<Rightarrow> context_t \<Rightarrow> heap \<Rightarrow> bool" for e :: env where
  start: "reachable e \<lparr>stack = [], root = None\<rparr> h"
| step: "reachable e ctx h \<Longrightarrow> callbacks e ev ctx h = Ret (s, ctx', h')
         \<Longrightarrow> reachable e ctx' h'"

definition is_container :: "stack_elem_t \<Rightarrow> bool" where
  "is_container s = (YAJL_IS_OBJECT (elem_value s) \<or> YAJL_IS_ARRAY (elem_value s))"

subsection \<open>The order of destruction, in the words of the spec\<close>

text \<open>
  A tree is well tagged when the tag of every node agrees with the member of the union
  that was written: a string or a number behind the string tag (the number as
  \<^verbatim>\<open>handle_number\<close> builds it) or the number tag, an object behind the object tag
  with as many keys as values, an array behind the array tag.
\<close>

function well_tagged :: "yajl_value \<Rightarrow> bool" where
  "well_tagged (Zeroed t) = True"
| "well_tagged (StringV t s) = (t = YAJL_TYPE_STRING)"
| "well_tagged (NumberV t r i d f) = (t = YAJL_TYPE_STRING \<or> t = YAJL_TYPE_NUMBER)"
| "well_tagged (ObjectV t ks vs) =
     (t = YAJL_TYPE_OBJECT \<and> length (entries ks) = length (entries vs)
      \<and> list_all well_tagged (entries ks) \<and> list_all well_tagged (entries vs))"
| "well_tagged (ArrayV t cs) = (t = YAJL_TYPE_ARRAY \<and> list_all well_tagged (entries cs))"
  by pat_completeness auto
termination
  apply (relation "measure size")
  apply simp_all
  subgoal for ks vs x using size_entries [of x ks] by linarith
  subgoal for ks vs x using size_entries [of x vs] by linarith
  subgoal for cs x using size_entries [of x cs] by linarith
  done

lemma in_enumerate: "(i, y) \<in> set (enumerate n ys) \<Longrightarrow> y \<in> set ys"
proof -
  assume "(i, y) \<in> set (enumerate n ys)"
  then have "snd (i, y) \<in> set (map snd (enumerate n ys))" by (simp only: set_map) (rule imageI)
  then show ?thesis by simp
qed

lemma in_enumerate_zip:
  "(i, k, x) \<in> set (enumerate n (zip ks xs)) \<Longrightarrow> k \<in> set ks \<and> x \<in> set xs"
  by (auto dest!: in_enumerate dest: set_zip_leftD set_zip_rightD)

function destroy_order :: "path \<Rightarrow> yajl_value \<Rightarrow> block list" where
  "destroy_order p (Zeroed t) = [(p, Node)]"
| "destroy_order p (StringV t s) = [(p, Buffer), (p, Node)]"
| "destroy_order p (NumberV t r i d f) = [(p, Buffer), (p, Node)]"
| "destroy_order p (ObjectV t ks vs) =
     concat (map (\<lambda>(i, k, x). destroy_order (p @ [Key i]) k @ destroy_order (p @ [Val i]) x)
               (enumerate 0 (zip (entries ks) (entries vs))))
     @ free_ptr ks (p, Keys_array) @ free_ptr vs (p, Values_array) @ [(p, Node)]"
| "destroy_order p (ArrayV t cs) =
     concat (map (\<lambda>(i, c). destroy_order (p @ [Child i]) c) (enumerate 0 (entries cs)))
     @ free_ptr cs (p, Children_array) @ [(p, Node)]"
  by pat_completeness auto
termination
  apply (relation "measure (\<lambda>(p, v). size v)")
  apply simp_all
  subgoal for ks vs x i y k v
    using in_enumerate_zip [of i k v 0 "entries ks" "entries vs"] size_entries [of k ks]
    by force
  subgoal for ks vs x i y k v
    using in_enumerate_zip [of i k v 0 "entries ks" "entries vs"] size_entries [of v vs]
    by force
  subgoal for cs x i c
    using in_enumerate [of i c 0 "entries cs"] size_entries [of c cs] by force
  done

text \<open>The nodes of a tree in post-order, each named by its position.\<close>

function postorder :: "path \<Rightarrow> yajl_value \<Rightarrow> path list" where
  "postorder p (Zeroed t) = [p]"
| "postorder p (StringV t s) = [p]"
| "postorder p (NumberV t r i d f) = [p]"
| "postorder p (ObjectV t ks vs) =
     concat (map (\<lambda>(i, k, x). postorder (p @ [Key i]) k @ postorder (p @ [Val i]) x)
               (enumerate 0 (zip (entries ks) (entries vs))))
     @ [p]"
| "postorder p (ArrayV t cs) =
     concat (map (\<lambda>(i, c). postorder (p @ [Child i]) c) (enumerate 0 (entries cs))) @ [p]"
  by pat_completeness auto
termination
  apply (relation "measure (\<lambda>(p, v). size v)")
  apply simp_all
  subgoal for ks vs x i y k v
    using in_enumerate_zip [of i k v 0 "entries ks" "entries vs"] size_entries [of k ks]
    by force
  subgoal for ks vs x i y k v
    using in_enumerate_zip [of i k v 0 "entries ks" "entries vs"] size_entries [of v vs]
    by force
  subgoal for cs x i c
    using in_enumerate [of i c 0 "entries cs"] size_entries [of c cs] by force
  done

definition nodes_freed :: "block list \<Rightarrow> path list" where
  "nodes_freed bs = map fst (filter (\<lambda>b. snd b = Node) bs)"

subsection \<open>Examples\<close>

text \<open>
  Environments for the closed examples. Their conversions convert nothing: the value is
  0, \<^verbatim>\<open>endptr\<close> is left at the start of the text and \<^verbatim>\<open>errno\<close> is not set, which is what
  \<^verbatim>\<open>strtoll\<close> and \<^verbatim>\<open>strtod\<close> do on the empty text. No example depends on what they
  return on another text.
\<close>

definition no_conv :: "string \<Rightarrow> 64 word conv" where
  "no_conv s = \<lparr>conv_value = 0, conv_end = 0, conv_errno = 0\<rparr>"

definition example_env :: "bool \<Rightarrow> bool \<Rightarrow> env" where
  "example_env nd un =
     \<lparr>NDEBUG = nd, to_number_unchecked = un, strtoll = no_conv, strtod = no_conv\<rparr>"

definition empty_heap :: heap where
  "empty_heap = \<lparr>live = 0, handles = 0, outcomes = []\<rparr>"

section \<open>The parser builds the tree of the document\<close>

text \<open>
  Feeding the events of a document \<open>d\<close> to the handlers has the effect of one call of
  \<^verbatim>\<open>context_add_value\<close> with the tree of \<open>d\<close>, when no allocation fails. A number
  event reaches \<^verbatim>\<open>context_add_value\<close> only where \<^verbatim>\<open>YAJL_TO_NUMBER\<close> yields a pointer for
  a value tagged \<^verbatim>\<open>YAJL_TYPE_STRING\<close>.
\<close>


lemma malloc_ok: "outcomes h = [] \<Longrightarrow> malloc h = (True, h\<lparr>live := Suc (live h)\<rparr>)"
  by (simp add: malloc_def)

lemma realloc_ok:
  "outcomes h = [] \<Longrightarrow> realloc p h = (True, h\<lparr>live := live h + (1 - allocated p)\<rparr>)"
  by (cases p) (simp_all add: realloc_def)

lemma value_alloc_ok:
  "outcomes h = [] \<Longrightarrow> value_alloc t h = (Some (Zeroed t), h\<lparr>live := Suc (live h)\<rparr>)"
  by (simp add: value_alloc_def malloc_ok)

lemma case_to_status:
  "(case to_status r of
      Crash f \<Rightarrow> Crash f
    | Ret (s, ctx', h') \<Rightarrow>
        if s = STATUS_CONTINUE then deliver e rest ctx' h' else Ret (s, ctx', h'))
   = then_deliver e rest r"
  by (cases r rule: to_status.cases) (simp_all add: then_deliver_def)

lemma deliver_to_status:
  "callbacks e ev ctx h = to_status r \<Longrightarrow> deliver e (ev # rest) ctx h = then_deliver e rest r"
  by (simp add: case_to_status)

lemma handle_null_ok:
  "outcomes h = [] \<Longrightarrow>
   handle_null e ctx h =
     to_status (context_add_value e ctx (Zeroed YAJL_TYPE_NULL) (h\<lparr>live := live h + 1\<rparr>))"
  by (simp add: handle_null_def value_alloc_ok)

lemma handle_boolean_ok:
  "outcomes h = [] \<Longrightarrow>
   handle_boolean e b ctx h =
     to_status (context_add_value e ctx
        (Zeroed (if b then YAJL_TYPE_TRUE else YAJL_TYPE_FALSE)) (h\<lparr>live := live h + 1\<rparr>))"
  by (simp add: handle_boolean_def value_alloc_ok)

lemma handle_string_ok:
  "outcomes h = [] \<Longrightarrow>
   handle_string e s ctx h =
     to_status (context_add_value e ctx (StringV YAJL_TYPE_STRING s) (h\<lparr>live := live h + 2\<rparr>))"
  by (simp add: handle_string_def value_alloc_ok malloc_ok macro_defs)

lemma handle_number_ok:
  "outcomes h = [] \<Longrightarrow> to_number_unchecked e \<Longrightarrow>
   handle_number e s ctx h =
     to_status (context_add_value e ctx (number_stores e YAJL_TYPE_STRING s)
        (h\<lparr>live := live h + 2\<rparr>))"
  by (simp add: handle_number_def value_alloc_ok malloc_ok macro_defs)

lemma blocks_number_stores [simp]: "blocks (number_stores e t s) = 2"
  by (simp add: number_stores_def Let_def)

lemma vtype_number_stores [simp]: "vtype (number_stores e t s) = t"
  by (simp add: number_stores_def Let_def)

lemma handle_start_array_ok:
  "outcomes h = [] \<Longrightarrow>
   handle_start_array e ctx h =
     Ret (STATUS_CONTINUE,
          ctx\<lparr>stack := \<lparr>elem_key = None, elem_value = ArrayV YAJL_TYPE_ARRAY None\<rparr> # stack ctx\<rparr>,
          h\<lparr>live := live h + 2\<rparr>)"
  by (simp add: handle_start_array_def value_alloc_ok malloc_ok context_push_def macro_defs)

lemma handle_start_map_ok:
  "outcomes h = [] \<Longrightarrow>
   handle_start_map e ctx h =
     Ret (STATUS_CONTINUE,
          ctx\<lparr>stack := \<lparr>elem_key = None, elem_value = ObjectV YAJL_TYPE_OBJECT None None\<rparr> # stack ctx\<rparr>,
          h\<lparr>live := live h + 2\<rparr>)"
  by (simp add: handle_start_map_def value_alloc_ok malloc_ok context_push_def macro_defs)

lemma add_to_array:
  "outcomes h = [] \<Longrightarrow>
   context_add_value e
     \<lparr>stack = \<lparr>elem_key = k, elem_value = ArrayV YAJL_TYPE_ARRAY cs\<rparr> # st, root = r\<rparr> v h =
   Ret (E_OK,
        \<lparr>stack = \<lparr>elem_key = k, elem_value = ArrayV YAJL_TYPE_ARRAY (Some (entries cs @ [v]))\<rparr> # st,
          root = r\<rparr>,
        h\<lparr>live := live h + (1 - allocated cs)\<rparr>)"
  by (simp add: context_add_value_def array_add_value_def realloc_ok
      macro_defs)

lemma add_key_to_object:
  "context_add_value e
     \<lparr>stack = \<lparr>elem_key = None, elem_value = ObjectV YAJL_TYPE_OBJECT ks vs\<rparr> # st, root = r\<rparr>
     (StringV YAJL_TYPE_STRING s) h =
   Ret (E_OK,
        \<lparr>stack = \<lparr>elem_key = Some (StringV YAJL_TYPE_STRING s),
                   elem_value = ObjectV YAJL_TYPE_OBJECT ks vs\<rparr> # st, root = r\<rparr>, h)"
  by (simp add: context_add_value_def macro_defs)

lemma add_value_to_object:
  "outcomes h = [] \<Longrightarrow>
   context_add_value e
     \<lparr>stack = \<lparr>elem_key = Some (StringV YAJL_TYPE_STRING s),
                elem_value = ObjectV YAJL_TYPE_OBJECT ks vs\<rparr> # st, root = r\<rparr> v h =
   Ret (E_OK,
        \<lparr>stack = \<lparr>elem_key = None,
                   elem_value = ObjectV YAJL_TYPE_OBJECT (Some (entries ks @ [StringV YAJL_TYPE_STRING s]))
                                  (Some (entries vs @ [v]))\<rparr> # st, root = r\<rparr>,
        h\<lparr>live := live h + (1 - allocated ks) + (1 - allocated vs)\<rparr>)"
  by (simp add: context_add_value_def object_add_keyval_def realloc_ok Let_def
      macro_defs)

lemma handle_end_ok:
  "handle_end_array e \<lparr>stack = s # st, root = r\<rparr> h =
     to_status (context_add_value e \<lparr>stack = st, root = r\<rparr> (elem_value s) (free h))"
  "handle_end_map e \<lparr>stack = s # st, root = r\<rparr> h =
     to_status (context_add_value e \<lparr>stack = st, root = r\<rparr> (elem_value s) (free h))"
  by (simp_all add: handle_end_array_def handle_end_map_def context_pop_def)

lemma then_deliver_Ret [simp]:
  "then_deliver e rest (Ret (E_OK, ctx, h)) = deliver e rest ctx h"
  by (simp add: then_deliver_def)

lemma grow_Cons: "grow (Some (entries cs @ [x])) xs = grow cs (x # xs)"
  by (simp add: grow_def)

lemma allocated_grow_Cons: "allocated (grow cs (x # xs)) - allocated cs = 1 - allocated cs"
  by (cases cs) (simp_all add: grow_def)

lemma deliver_children:
  assumes IH: "\<And>x ctx h rest. x \<in> set xs \<Longrightarrow> outcomes h = [] \<Longrightarrow>
             deliver e (events_of x @ rest) ctx h =
             then_deliver e rest (context_add_value e ctx (tree_of e x)
                (h\<lparr>live := live h + blocks (tree_of e x)\<rparr>))"
    and h: "outcomes h = []"
  shows "deliver e (concat (map events_of xs) @ rest)
           \<lparr>stack = \<lparr>elem_key = k, elem_value = ArrayV YAJL_TYPE_ARRAY cs\<rparr> # st, root = r\<rparr> h =
         deliver e rest
           \<lparr>stack = \<lparr>elem_key = k,
                      elem_value = ArrayV YAJL_TYPE_ARRAY (grow cs (map (tree_of e) xs))\<rparr> # st,
             root = r\<rparr>
           (h\<lparr>live := live h + sum_list (map (\<lambda>x. blocks (tree_of e x)) xs)
                          + (allocated (grow cs (map (tree_of e) xs)) - allocated cs)\<rparr>)"
  using IH h
proof (induction xs arbitrary: cs h)
  case Nil
  then show ?case by (simp add: grow_def)
next
  case (Cons x xs)
  let ?h1 = "h\<lparr>live := live h + blocks (tree_of e x)\<rparr>"
  let ?h2 = "?h1\<lparr>live := live ?h1 + (1 - allocated cs)\<rparr>"
  have h2: "outcomes ?h2 = []" using Cons.prems(2) by simp
  have "deliver e (concat (map events_of (x # xs)) @ rest)
          \<lparr>stack = \<lparr>elem_key = k, elem_value = ArrayV YAJL_TYPE_ARRAY cs\<rparr> # st, root = r\<rparr> h =
        deliver e (concat (map events_of xs) @ rest)
          \<lparr>stack = \<lparr>elem_key = k,
                     elem_value = ArrayV YAJL_TYPE_ARRAY (Some (entries cs @ [tree_of e x]))\<rparr> # st,
            root = r\<rparr> ?h2"
    using Cons.prems(1) [of x h] Cons.prems(2) by (simp add: add_to_array)
  also have "\<dots> = deliver e rest
           \<lparr>stack = \<lparr>elem_key = k,
                      elem_value = ArrayV YAJL_TYPE_ARRAY
                        (grow (Some (entries cs @ [tree_of e x])) (map (tree_of e) xs))\<rparr> # st,
             root = r\<rparr>
           (?h2\<lparr>live := live ?h2 + sum_list (map (\<lambda>x. blocks (tree_of e x)) xs)
                          + (allocated (grow (Some (entries cs @ [tree_of e x])) (map (tree_of e) xs))
                             - allocated (Some (entries cs @ [tree_of e x])))\<rparr>)"
    by (rule Cons.IH [OF _ h2]) (rule Cons.prems(1), simp_all)
  finally show ?case
    by (simp add: grow_Cons allocated_grow_Cons grow_def add_ac)
qed

lemma deliver_entries:
  assumes IH: "\<And>k x ctx h rest. (k, x) \<in> set kvs \<Longrightarrow> outcomes h = [] \<Longrightarrow>
             deliver e (events_of x @ rest) ctx h =
             then_deliver e rest (context_add_value e ctx (tree_of e x)
                (h\<lparr>live := live h + blocks (tree_of e x)\<rparr>))"
    and h: "outcomes h = []"
  shows "deliver e (concat (map (\<lambda>(k, x). Ev_map_key k # events_of x) kvs) @ rest)
           \<lparr>stack = \<lparr>elem_key = None, elem_value = ObjectV YAJL_TYPE_OBJECT ks vs\<rparr> # st,
             root = r\<rparr> h =
         deliver e rest
           \<lparr>stack = \<lparr>elem_key = None,
                      elem_value = ObjectV YAJL_TYPE_OBJECT
                        (grow ks (map (\<lambda>(k, x). StringV YAJL_TYPE_STRING k) kvs))
                        (grow vs (map (\<lambda>(k, x). tree_of e x) kvs))\<rparr> # st,
             root = r\<rparr>
           (h\<lparr>live := live h + sum_list (map (\<lambda>(k, x). 2 + blocks (tree_of e x)) kvs)
                 + (allocated (grow ks (map (\<lambda>(k, x). StringV YAJL_TYPE_STRING k) kvs))
                      - allocated ks)
                 + (allocated (grow vs (map (\<lambda>(k, x). tree_of e x) kvs)) - allocated vs)\<rparr>)"
  using IH h
proof (induction kvs arbitrary: ks vs h)
  case Nil
  then show ?case by (simp add: grow_def)
next
  case (Cons kx kvs)
  obtain k x where kx: "kx = (k, x)" by (cases kx)
  let ?key = "StringV YAJL_TYPE_STRING k"
  let ?h1 = "h\<lparr>live := live h + 2\<rparr>"
  let ?h2 = "?h1\<lparr>live := live ?h1 + blocks (tree_of e x)\<rparr>"
  let ?h3 = "?h2\<lparr>live := live ?h2 + (1 - allocated ks) + (1 - allocated vs)\<rparr>"
  have h1: "outcomes ?h1 = []" and h3: "outcomes ?h3 = []"
    using Cons.prems(2) by simp_all
  have key: "deliver e (Ev_map_key k # events_of x @ concat (map (\<lambda>(k, x). Ev_map_key k # events_of x) kvs) @ rest)
          \<lparr>stack = \<lparr>elem_key = None, elem_value = ObjectV YAJL_TYPE_OBJECT ks vs\<rparr> # st,
            root = r\<rparr> h =
        deliver e (events_of x @ concat (map (\<lambda>(k, x). Ev_map_key k # events_of x) kvs) @ rest)
          \<lparr>stack = \<lparr>elem_key = Some ?key, elem_value = ObjectV YAJL_TYPE_OBJECT ks vs\<rparr> # st,
            root = r\<rparr> ?h1"
    using Cons.prems(2)
    by (subst deliver_to_status [where r = "context_add_value e
           \<lparr>stack = \<lparr>elem_key = None, elem_value = ObjectV YAJL_TYPE_OBJECT ks vs\<rparr> # st,
             root = r\<rparr> ?key ?h1"])
      (simp_all add: handle_string_ok add_key_to_object)
  have val: "deliver e (events_of x @ concat (map (\<lambda>(k, x). Ev_map_key k # events_of x) kvs) @ rest)
          \<lparr>stack = \<lparr>elem_key = Some ?key, elem_value = ObjectV YAJL_TYPE_OBJECT ks vs\<rparr> # st,
            root = r\<rparr> ?h1 =
        deliver e (concat (map (\<lambda>(k, x). Ev_map_key k # events_of x) kvs) @ rest)
          \<lparr>stack = \<lparr>elem_key = None,
                     elem_value = ObjectV YAJL_TYPE_OBJECT (Some (entries ks @ [?key]))
                        (Some (entries vs @ [tree_of e x]))\<rparr> # st,
            root = r\<rparr> ?h3"
    using Cons.prems(1) [of k x ?h1] h1 kx by (simp add: add_value_to_object)
  have rest: "deliver e (concat (map (\<lambda>(k, x). Ev_map_key k # events_of x) kvs) @ rest)
          \<lparr>stack = \<lparr>elem_key = None,
                     elem_value = ObjectV YAJL_TYPE_OBJECT (Some (entries ks @ [?key]))
                        (Some (entries vs @ [tree_of e x]))\<rparr> # st,
            root = r\<rparr> ?h3 =
        deliver e rest
           \<lparr>stack = \<lparr>elem_key = None,
                      elem_value = ObjectV YAJL_TYPE_OBJECT
                        (grow (Some (entries ks @ [?key])) (map (\<lambda>(k, x). StringV YAJL_TYPE_STRING k) kvs))
                        (grow (Some (entries vs @ [tree_of e x])) (map (\<lambda>(k, x). tree_of e x) kvs))\<rparr> # st,
             root = r\<rparr>
           (?h3\<lparr>live := live ?h3 + sum_list (map (\<lambda>(k, x). 2 + blocks (tree_of e x)) kvs)
                 + (allocated (grow (Some (entries ks @ [?key])) (map (\<lambda>(k, x). StringV YAJL_TYPE_STRING k) kvs))
                      - allocated (Some (entries ks @ [?key])))
                 + (allocated (grow (Some (entries vs @ [tree_of e x])) (map (\<lambda>(k, x). tree_of e x) kvs))
                      - allocated (Some (entries vs @ [tree_of e x])))\<rparr>)"
  proof (rule Cons.IH [OF _ h3])
    fix k' x' ctx' rest' and h' :: heap
    assume "(k', x') \<in> set kvs" and o: "outcomes h' = []"
    then have "(k', x') \<in> set (kx # kvs)" by simp
    from Cons.prems(1) [OF this o]
    show "deliver e (events_of x' @ rest') ctx' h' =
          then_deliver e rest' (context_add_value e ctx' (tree_of e x')
             (h'\<lparr>live := live h' + blocks (tree_of e x')\<rparr>))" .
  qed
  show ?case
    unfolding kx using key val rest
    by (simp add: grow_Cons allocated_grow_Cons grow_def add_ac)
qed

lemma numbers_ok_child: "numbers_ok e (JArray xs) \<Longrightarrow> x \<in> set xs \<Longrightarrow> numbers_ok e x"
  by (auto simp: numbers_ok_def list_ex_iff)

lemma numbers_ok_entry: "numbers_ok e (JObject kvs) \<Longrightarrow> (k, x) \<in> set kvs \<Longrightarrow> numbers_ok e x"
  by (auto simp: numbers_ok_def list_ex_iff)

lemma grow_None: "grow None xs = some_unless_empty xs"
  by (simp add: grow_def some_unless_empty_def)

lemma deliver_events_of:
  assumes "numbers_ok e d" and "outcomes h = []"
  shows "deliver e (events_of d @ rest) ctx h =
         then_deliver e rest
           (context_add_value e ctx (tree_of e d) (h\<lparr>live := live h + blocks (tree_of e d)\<rparr>))"
  using assms
proof (induction d arbitrary: ctx h rest)
  case JNull
  then show ?case by (simp add: case_to_status handle_null_ok)
next
  case (JBool b)
  then show ?case by (simp add: case_to_status handle_boolean_ok)
next
  case (JNumber s)
  then show ?case by (simp add: case_to_status handle_number_ok numbers_ok_def)
next
  case (JString s)
  then show ?case by (simp add: case_to_status handle_string_ok)
next
  case (JArray xs)
  obtain st r where ctx: "ctx = \<lparr>stack = st, root = r\<rparr>" by (cases ctx) simp
  let ?ts = "map (tree_of e) xs"
  let ?h1 = "h\<lparr>live := live h + 2\<rparr>"
  let ?h2 = "?h1\<lparr>live := live ?h1 + sum_list (map (\<lambda>x. blocks (tree_of e x)) xs)
                          + (allocated (grow None ?ts) - allocated (None :: yajl_value list option))\<rparr>"
  have h1: "outcomes ?h1 = []" using JArray.prems by simp
  have IH: "\<And>x ctx h rest. x \<in> set xs \<Longrightarrow> outcomes h = [] \<Longrightarrow>
             deliver e (events_of x @ rest) ctx h =
             then_deliver e rest (context_add_value e ctx (tree_of e x)
                (h\<lparr>live := live h + blocks (tree_of e x)\<rparr>))"
    using JArray.IH numbers_ok_child [OF JArray.prems(1)] by blast
  have "deliver e (events_of (JArray xs) @ rest) ctx h =
        deliver e (concat (map events_of xs) @ Ev_end_array # rest)
          \<lparr>stack = \<lparr>elem_key = None, elem_value = ArrayV YAJL_TYPE_ARRAY None\<rparr> # st, root = r\<rparr> ?h1"
    using JArray.prems(2) by (simp add: handle_start_array_ok ctx)
  also have "\<dots> = deliver e (Ev_end_array # rest)
          \<lparr>stack = \<lparr>elem_key = None, elem_value = ArrayV YAJL_TYPE_ARRAY (grow None ?ts)\<rparr> # st,
            root = r\<rparr> ?h2"
    by (rule deliver_children [OF IH h1])
  also have "\<dots> = then_deliver e rest
          (context_add_value e ctx (ArrayV YAJL_TYPE_ARRAY (grow None ?ts)) (free ?h2))"
    by (subst deliver_to_status [where r = "context_add_value e ctx
           (ArrayV YAJL_TYPE_ARRAY (grow None ?ts)) (free ?h2)"])
      (simp_all add: handle_end_ok ctx)
  also have "free ?h2 = h\<lparr>live := live h + blocks (tree_of e (JArray xs))\<rparr>"
    by (simp add: free_def grow_None some_unless_empty_def comp_def)
  finally show ?case by (simp add: grow_None)
next
  case (JObject kvs)
  obtain st r where ctx: "ctx = \<lparr>stack = st, root = r\<rparr>" by (cases ctx) simp
  let ?ks = "map (\<lambda>(k, x). StringV YAJL_TYPE_STRING k) kvs"
  let ?vs = "map (\<lambda>(k, x). tree_of e x) kvs"
  let ?h1 = "h\<lparr>live := live h + 2\<rparr>"
  let ?h2 = "?h1\<lparr>live := live ?h1 + sum_list (map (\<lambda>(k, x). 2 + blocks (tree_of e x)) kvs)
                 + (allocated (grow None ?ks) - allocated (None :: yajl_value list option))
                 + (allocated (grow None ?vs) - allocated (None :: yajl_value list option))\<rparr>"
  have h1: "outcomes ?h1 = []" using JObject.prems by simp
  have IH: "\<And>k x ctx h rest. (k, x) \<in> set kvs \<Longrightarrow> outcomes h = [] \<Longrightarrow>
             deliver e (events_of x @ rest) ctx h =
             then_deliver e rest (context_add_value e ctx (tree_of e x)
                (h\<lparr>live := live h + blocks (tree_of e x)\<rparr>))"
  proof -
    fix k x ctx rest and h :: heap
    assume m: "(k, x) \<in> set kvs" and o: "outcomes h = []"
    have "x \<in> Basic_BNFs.snds (k, x)" by simp
    from JObject.IH [OF m this numbers_ok_entry [OF JObject.prems(1) m] o]
    show "deliver e (events_of x @ rest) ctx h =
             then_deliver e rest (context_add_value e ctx (tree_of e x)
                (h\<lparr>live := live h + blocks (tree_of e x)\<rparr>))" .
  qed
  have "deliver e (events_of (JObject kvs) @ rest) ctx h =
        deliver e (concat (map (\<lambda>(k, x). Ev_map_key k # events_of x) kvs) @ Ev_end_map # rest)
          \<lparr>stack = \<lparr>elem_key = None, elem_value = ObjectV YAJL_TYPE_OBJECT None None\<rparr> # st,
            root = r\<rparr> ?h1"
    using JObject.prems(2) by (simp add: handle_start_map_ok ctx)
  also have "\<dots> = deliver e (Ev_end_map # rest)
          \<lparr>stack = \<lparr>elem_key = None,
                     elem_value = ObjectV YAJL_TYPE_OBJECT (grow None ?ks) (grow None ?vs)\<rparr> # st,
            root = r\<rparr> ?h2"
    by (rule deliver_entries [OF IH h1])
  also have "\<dots> = then_deliver e rest
          (context_add_value e ctx (ObjectV YAJL_TYPE_OBJECT (grow None ?ks) (grow None ?vs))
             (free ?h2))"
    by (subst deliver_to_status [where r = "context_add_value e ctx
           (ObjectV YAJL_TYPE_OBJECT (grow None ?ks) (grow None ?vs)) (free ?h2)"])
      (simp_all add: handle_end_ok ctx)
  also have "free ?h2 = h\<lparr>live := live h + blocks (tree_of e (JObject kvs))\<rparr>"
  proof -
    have "sum_list (map (\<lambda>(k, x). 2 + blocks (tree_of e x)) kvs)
          = sum_list (map blocks ?ks) + sum_list (map blocks ?vs)"
      by (induction kvs) auto
    then show ?thesis
      by (simp add: free_def grow_None) (simp add: some_unless_empty_def)
  qed
  finally show ?case by (simp add: grow_None)
qed

lemma tokenizes_document_run: "tokenizes (document_run d) d"
  by (simp add: tokenizes_def document_run_def)

lemma deliver_append:
  "deliver e (xs @ ys) ctx h =
     (case deliver e xs ctx h of
        Crash f \<Rightarrow> Crash f
      | Ret (s, ctx', h') \<Rightarrow>
          if s = STATUS_CONTINUE then deliver e ys ctx' h' else Ret (s, ctx', h'))"
  by (induction xs arbitrary: ctx h) (auto split: res.splits)

lemma deliver_document:
  assumes "numbers_ok e d" and "outcomes h = []"
  shows "deliver e (events_of d) \<lparr>stack = [], root = None\<rparr> h =
         Ret (STATUS_CONTINUE, \<lparr>stack = [], root = Some (tree_of e d)\<rparr>,
              h\<lparr>live := live h + blocks (tree_of e d)\<rparr>)"
  using deliver_events_of [OF assms, of "[]" "\<lparr>stack = [], root = None\<rparr>"]
  by (simp add: context_add_value_def)

lemma parse_document:
  assumes n: "numbers_ok e d" and h: "outcomes h = []" and t: "tokenizes run d"
  shows "yajl_tree_parse e run h =
         Ret (Some (tree_of e d), h\<lparr>live := live h + blocks (tree_of e d)\<rparr>)"
proof -
  let ?c0 = "\<lparr>stack = [], root = None\<rparr>"
  let ?h0 = "yajl_alloc h"
  have h0: "outcomes ?h0 = []" using h by (simp add: yajl_alloc_def)
  have "deliver e (feed_events run @ complete_events run) ?c0 ?h0 =
         Ret (STATUS_CONTINUE, \<lparr>stack = [], root = Some (tree_of e d)\<rparr>,
              ?h0\<lparr>live := live ?h0 + blocks (tree_of e d)\<rparr>)"
    using deliver_document [OF n h0] t by (simp add: tokenizes_def)
  then obtain c1 h1 where
    1: "deliver e (feed_events run) ?c0 ?h0 = Ret (STATUS_CONTINUE, c1, h1)" and
    2: "deliver e (complete_events run) c1 h1 =
         Ret (STATUS_CONTINUE, \<lparr>stack = [], root = Some (tree_of e d)\<rparr>,
              ?h0\<lparr>live := live ?h0 + blocks (tree_of e d)\<rparr>)"
    by (auto simp: deliver_append split: res.splits if_splits)
  show ?thesis
    using 1 2 t
    by (simp add: yajl_tree_parse_def yajl_parse_def tokenizes_def yajl_alloc_def yajl_free_def)
qed

text \<open>
  Where \<^verbatim>\<open>YAJL_TO_NUMBER\<close> yields \<^verbatim>\<open>NULL\<close> for a value tagged \<^verbatim>\<open>YAJL_TYPE_STRING\<close>, the
  first number event of a document ends the parse at the store \<^verbatim>\<open>n->value_raw = ...\<close>:
  the events before it are those of documents without a number, and are taken as above.
\<close>

lemma handle_number_null:
  "outcomes h = [] \<Longrightarrow> \<not> to_number_unchecked e \<Longrightarrow>
   handle_number e s ctx h = Crash Null_dereference"
  by (simp add: handle_number_def value_alloc_ok macro_defs)

lemma deliver_stops_at_number:
  assumes "\<not> to_number_unchecked e" and "has_number d" and "outcomes h = []"
  shows "deliver e (events_of d @ rest) ctx h = Crash Null_dereference"
  using assms(2,3)
proof (induction d arbitrary: ctx h rest)
  case (JNumber s)
  then show ?case using assms(1) by (simp add: handle_number_null)
next
  case (JArray xs)
  from JArray.prems(1) obtain ys x zs where
    xs: "xs = ys @ x # zs" and x: "has_number x" and ys: "\<forall>y\<in>set ys. \<not> has_number y"
    by (auto simp: list_ex_iff dest!: split_list_first_prop)
  obtain st r where ctx: "ctx = \<lparr>stack = st, root = r\<rparr>" by (cases ctx) simp
  let ?ts = "map (tree_of e) ys"
  let ?tl = "concat (map events_of zs) @ Ev_end_array # rest"
  let ?h1 = "h\<lparr>live := live h + 2\<rparr>"
  let ?h2 = "?h1\<lparr>live := live ?h1 + sum_list (map (\<lambda>x. blocks (tree_of e x)) ys)
                          + (allocated (grow None ?ts) - allocated (None :: yajl_value list option))\<rparr>"
  have h1: "outcomes ?h1 = []" and h2: "outcomes ?h2 = []" using JArray.prems(2) by simp_all
  have IH: "\<And>y ctx h rest. y \<in> set ys \<Longrightarrow> outcomes h = [] \<Longrightarrow>
             deliver e (events_of y @ rest) ctx h =
             then_deliver e rest (context_add_value e ctx (tree_of e y)
                (h\<lparr>live := live h + blocks (tree_of e y)\<rparr>))"
    using ys by (simp add: deliver_events_of numbers_ok_def)
  have "deliver e (events_of (JArray xs) @ rest) ctx h =
        deliver e (concat (map events_of ys) @ events_of x @ ?tl)
          \<lparr>stack = \<lparr>elem_key = None, elem_value = ArrayV YAJL_TYPE_ARRAY None\<rparr> # st, root = r\<rparr> ?h1"
    using JArray.prems(2) by (simp add: handle_start_array_ok ctx xs)
  also have "\<dots> = deliver e (events_of x @ ?tl)
          \<lparr>stack = \<lparr>elem_key = None, elem_value = ArrayV YAJL_TYPE_ARRAY (grow None ?ts)\<rparr> # st,
            root = r\<rparr> ?h2"
    by (rule deliver_children [OF IH h1])
  also have "\<dots> = Crash Null_dereference"
    by (rule JArray.IH [OF _ x h2]) (simp add: xs)
  finally show ?case .
next
  case (JObject kvs)
  from JObject.prems(1) obtain ys kx zs where
    kvs: "kvs = ys @ kx # zs" and kx: "case kx of (k, x) \<Rightarrow> has_number x"
    and ys: "\<forall>y\<in>set ys. \<not> (case y of (k, x) \<Rightarrow> has_number x)"
    by (auto simp: list_ex_iff dest!: split_list_first_prop)
  obtain k x where kx_eq: "kx = (k, x)" by (cases kx)
  have x: "has_number x" using kx kx_eq by simp
  obtain st r where ctx: "ctx = \<lparr>stack = st, root = r\<rparr>" by (cases ctx) simp
  let ?ks = "map (\<lambda>(k, x). StringV YAJL_TYPE_STRING k) ys"
  let ?vs = "map (\<lambda>(k, x). tree_of e x) ys"
  let ?tl = "concat (map (\<lambda>(k, x). Ev_map_key k # events_of x) zs) @ Ev_end_map # rest"
  let ?h1 = "h\<lparr>live := live h + 2\<rparr>"
  let ?h2 = "?h1\<lparr>live := live ?h1 + sum_list (map (\<lambda>(k, x). 2 + blocks (tree_of e x)) ys)
                 + (allocated (grow None ?ks) - allocated (None :: yajl_value list option))
                 + (allocated (grow None ?vs) - allocated (None :: yajl_value list option))\<rparr>"
  let ?h3 = "?h2\<lparr>live := live ?h2 + 2\<rparr>"
  let ?key = "StringV YAJL_TYPE_STRING k"
  have h1: "outcomes ?h1 = []" and h2: "outcomes ?h2 = []" and h3: "outcomes ?h3 = []"
    using JObject.prems(2) by simp_all
  have IH: "\<And>k y ctx h rest. (k, y) \<in> set ys \<Longrightarrow> outcomes h = [] \<Longrightarrow>
             deliver e (events_of y @ rest) ctx h =
             then_deliver e rest (context_add_value e ctx (tree_of e y)
                (h\<lparr>live := live h + blocks (tree_of e y)\<rparr>))"
    using ys by (auto simp: deliver_events_of numbers_ok_def)
  have "deliver e (events_of (JObject kvs) @ rest) ctx h =
        deliver e (concat (map (\<lambda>(k, x). Ev_map_key k # events_of x) ys)
                    @ Ev_map_key k # events_of x @ ?tl)
          \<lparr>stack = \<lparr>elem_key = None, elem_value = ObjectV YAJL_TYPE_OBJECT None None\<rparr> # st,
            root = r\<rparr> ?h1"
    using JObject.prems(2) by (simp add: handle_start_map_ok ctx kvs kx_eq)
  also have "\<dots> = deliver e (Ev_map_key k # events_of x @ ?tl)
          \<lparr>stack = \<lparr>elem_key = None,
                     elem_value = ObjectV YAJL_TYPE_OBJECT (grow None ?ks) (grow None ?vs)\<rparr> # st,
            root = r\<rparr> ?h2"
    by (rule deliver_entries [OF IH h1])
  also have "\<dots> = deliver e (events_of x @ ?tl)
          \<lparr>stack = \<lparr>elem_key = Some ?key,
                     elem_value = ObjectV YAJL_TYPE_OBJECT (grow None ?ks) (grow None ?vs)\<rparr> # st,
            root = r\<rparr> ?h3"
    using h2
    by (subst deliver_to_status [where r = "context_add_value e
           \<lparr>stack = \<lparr>elem_key = None,
                     elem_value = ObjectV YAJL_TYPE_OBJECT (grow None ?ks) (grow None ?vs)\<rparr> # st,
             root = r\<rparr> ?key ?h3"])
      (simp_all add: handle_string_ok add_key_to_object)
  also have "\<dots> = Crash Null_dereference"
  proof (rule JObject.IH [OF _ _ x h3])
    show "kx \<in> set kvs" by (simp add: kvs)
    show "x \<in> Basic_BNFs.snds kx" by (simp add: kx_eq)
  qed
  finally show ?case .
qed simp_all

lemma parse_stops_at_number:
  assumes n: "\<not> numbers_ok e d" and h: "outcomes h = []" and t: "tokenizes run d"
  shows "yajl_tree_parse e run h = Crash Null_dereference"
proof -
  let ?c0 = "\<lparr>stack = [], root = None\<rparr>"
  let ?h0 = "yajl_alloc h"
  have h0: "outcomes ?h0 = []" using h by (simp add: yajl_alloc_def)
  from n have u: "\<not> to_number_unchecked e" and d: "has_number d"
    by (simp_all add: numbers_ok_def)
  have "deliver e (feed_events run @ complete_events run) ?c0 ?h0 = Crash Null_dereference"
    using deliver_stops_at_number [OF u d h0, of "[]" ?c0] t by (simp add: tokenizes_def)
  then show ?thesis
    using t
    by (auto simp: deliver_append yajl_tree_parse_def yajl_parse_def tokenizes_def Let_def
        split: res.splits if_splits)
qed

section \<open>The stack during a parse\<close>

lemma vtype_object_add_keyval:
  "object_add_keyval obj k v h = (r, obj', h') \<Longrightarrow> vtype obj' = vtype obj"
  by (auto simp: object_add_keyval_def Let_def split: prod.splits if_splits option.splits
      dest!: YAJL_TO_OBJECT_Some)

lemma vtype_array_add_value:
  "array_add_value arr v h = (r, arr', h') \<Longrightarrow> vtype arr' = vtype arr"
  by (auto simp: array_add_value_def split: prod.splits if_splits option.splits
      dest!: YAJL_TO_ARRAY_Some)

lemma containers_add_value:
  assumes "list_all is_container (stack ctx)"
    and "context_add_value e ctx v h = Ret (r, ctx', h')"
  shows "list_all is_container (stack ctx')"
proof (cases "stack ctx")
  case Nil
  with assms show ?thesis
    by (auto simp: context_add_value_def split: if_splits)
next
  case (Cons s rest)
  with assms show ?thesis
    by (auto simp: context_add_value_def is_container_def macro_defs
        split: if_splits option.splits prod.splits
        dest: vtype_object_add_keyval vtype_array_add_value)
qed

lemma containers_to_status:
  assumes "list_all is_container (stack ctx)"
    and "to_status (context_add_value e ctx v h) = Ret (s, ctx', h')"
  shows "list_all is_container (stack ctx')"
proof (cases "context_add_value e ctx v h")
  case (Ret x)
  then obtain r c1 h1 where "context_add_value e ctx v h = Ret (r, c1, h1)" by (cases x) auto
  with assms show ?thesis using containers_add_value [OF assms(1)] by auto
next
  case (Crash f)
  with assms show ?thesis by simp
qed

lemma containers_push:
  assumes "list_all is_container (stack ctx)"
    and "YAJL_IS_OBJECT v \<or> YAJL_IS_ARRAY v"
    and "to_status (context_push e ctx v h) = Ret (s, ctx', h')"
  shows "list_all is_container (stack ctx')"
  using assms
  by (auto simp: context_push_def is_container_def split: prod.splits if_splits)

lemma containers_pop:
  assumes "list_all is_container (stack ctx)"
    and "context_pop ctx h = (v, ctx', h')"
  shows "list_all is_container (stack ctx')"
  using assms by (auto simp: context_pop_def split: list.splits)

lemma value_alloc_Some: "value_alloc t h = (Some v, h') \<Longrightarrow> v = Zeroed t"
  by (auto simp: value_alloc_def split: prod.splits if_splits)

lemma containers_callbacks:
  assumes inv: "list_all is_container (stack ctx)"
    and cb: "callbacks e ev ctx h = Ret (s, ctx', h')"
  shows "list_all is_container (stack ctx')"
proof (cases ev)
  case Ev_null
  with cb inv show ?thesis
    by (auto simp: handle_null_def split: prod.splits option.splits dest: containers_to_status)
next
  case (Ev_boolean b)
  with cb inv show ?thesis
    by (auto simp: handle_boolean_def split: prod.splits option.splits
        dest: containers_to_status)
next
  case (Ev_number x)
  with cb inv show ?thesis
    by (auto simp: handle_number_def split: prod.splits option.splits if_splits
        dest: containers_to_status)
next
  case (Ev_string x)
  with cb inv show ?thesis
    by (auto simp: handle_string_def split: prod.splits option.splits if_splits
        dest: containers_to_status)
next
  case Ev_start_map
  with cb inv show ?thesis
    by (auto simp: handle_start_map_def YAJL_IS_OBJECT_def
        split: prod.splits option.splits
        dest!: value_alloc_Some YAJL_TO_OBJECT_Some containers_push [rotated 2])
next
  case (Ev_map_key x)
  with cb inv show ?thesis
    by (auto simp: handle_string_def split: prod.splits option.splits if_splits
        dest: containers_to_status)
next
  case Ev_end_map
  with cb inv show ?thesis
    by (auto simp: handle_end_map_def split: prod.splits option.splits
        dest: containers_pop containers_to_status)
next
  case Ev_start_array
  with cb inv show ?thesis
    by (auto simp: handle_start_array_def YAJL_IS_ARRAY_def
        split: prod.splits option.splits
        dest!: value_alloc_Some YAJL_TO_ARRAY_Some containers_push [rotated 2])
next
  case Ev_end_array
  with cb inv show ?thesis
    by (auto simp: handle_end_array_def split: prod.splits option.splits
        dest: containers_pop containers_to_status)
qed

text \<open>Only the two start handlers make the stack longer.\<close>

lemma length_add_value:
  "context_add_value e ctx v h = Ret (r, ctx', h') \<Longrightarrow> length (stack ctx') = length (stack ctx)"
  by (auto simp: context_add_value_def split: list.splits if_splits option.splits prod.splits)

lemma length_to_status:
  assumes "to_status (context_add_value e ctx v h) = Ret (s, ctx', h')"
  shows "length (stack ctx') = length (stack ctx)"
proof (cases "context_add_value e ctx v h")
  case (Ret x)
  then obtain r c1 h1 where "context_add_value e ctx v h = Ret (r, c1, h1)" by (cases x) auto
  with assms show ?thesis using length_add_value by auto
next
  case (Crash f)
  with assms show ?thesis by simp
qed

lemma length_pop: "context_pop ctx h = (v, ctx', h') \<Longrightarrow> length (stack ctx') \<le> length (stack ctx)"
  by (auto simp: context_pop_def split: list.splits)

lemma push_top:
  assumes "to_status (context_push e ctx v h) = Ret (s, ctx', h')"
    and "length (stack ctx) < length (stack ctx')"
  shows "stack ctx' = \<lparr>elem_key = None, elem_value = v\<rparr> # stack ctx"
  using assms by (auto simp: context_push_def split: prod.splits if_splits)

lemma frames_pushed_by_start:
  assumes cb: "callbacks e ev ctx h = Ret (s, ctx', h')"
    and gr: "length (stack ctx) < length (stack ctx')"
  shows "(ev = Ev_start_map
            \<and> stack ctx' = \<lparr>elem_key = None, elem_value = ObjectV YAJL_TYPE_OBJECT None None\<rparr>
                            # stack ctx)
         \<or> (ev = Ev_start_array
            \<and> stack ctx' = \<lparr>elem_key = None, elem_value = ArrayV YAJL_TYPE_ARRAY None\<rparr>
                            # stack ctx)"
proof (cases ev)
  case Ev_null
  with cb gr show ?thesis
    by (auto simp: handle_null_def split: prod.splits option.splits dest: length_to_status)
next
  case (Ev_boolean b)
  with cb gr show ?thesis
    by (auto simp: handle_boolean_def split: prod.splits option.splits dest: length_to_status)
next
  case (Ev_number x)
  with cb gr show ?thesis
    by (auto simp: handle_number_def split: prod.splits option.splits if_splits
        dest: length_to_status)
next
  case (Ev_string x)
  with cb gr show ?thesis
    by (auto simp: handle_string_def split: prod.splits option.splits if_splits
        dest: length_to_status)
next
  case Ev_start_map
  with cb gr show ?thesis
    by (auto simp: handle_start_map_def split: prod.splits option.splits
        dest!: value_alloc_Some YAJL_TO_OBJECT_Some dest: push_top)
next
  case (Ev_map_key x)
  with cb gr show ?thesis
    by (auto simp: handle_string_def split: prod.splits option.splits if_splits
        dest: length_to_status)
next
  case Ev_end_map
  with cb gr show ?thesis
    by (auto simp: handle_end_map_def split: prod.splits option.splits
        dest!: length_pop length_to_status)
next
  case Ev_start_array
  with cb gr show ?thesis
    by (auto simp: handle_start_array_def split: prod.splits option.splits
        dest!: value_alloc_Some YAJL_TO_ARRAY_Some dest: push_top)
next
  case Ev_end_array
  with cb gr show ?thesis
    by (auto simp: handle_end_array_def split: prod.splits option.splits
        dest!: length_pop length_to_status)
qed

section \<open>The destructor follows the order of the spec\<close>

lemma nodes_freed_Nil [simp]: "nodes_freed [] = []"
  by (simp add: nodes_freed_def)

lemma nodes_freed_Cons [simp]:
  "nodes_freed ((q, part) # bs) = (if part = Node then q # nodes_freed bs else nodes_freed bs)"
  by (simp add: nodes_freed_def)

lemma nodes_freed_append [simp]: "nodes_freed (xs @ ys) = nodes_freed xs @ nodes_freed ys"
  by (simp add: nodes_freed_def)

lemma nodes_freed_concat: "nodes_freed (concat xss) = concat (map nodes_freed xss)"
  by (induction xss) simp_all

lemma nodes_freed_free_ptr [simp]: "part \<noteq> Node \<Longrightarrow> nodes_freed (free_ptr x (p, part)) = []"
  by (cases x) simp_all

lemma nodes_freed_destroy_order: "nodes_freed (destroy_order p v) = postorder p v"
proof (induction p v rule: destroy_order.induct)
  case (4 p t ks vs)
  have eq: "concat (map (\<lambda>a. nodes_freed (case a of (i, k, x) \<Rightarrow>
             destroy_order (p @ [Key i]) k @ destroy_order (p @ [Val i]) x))
          (enumerate 0 (zip (entries ks) (entries vs))))
      = concat (map (\<lambda>(i, k, x). postorder (p @ [Key i]) k @ postorder (p @ [Val i]) x)
          (enumerate 0 (zip (entries ks) (entries vs))))"
    by (rule arg_cong [where f = concat], rule map_cong) (auto simp: 4)
  show ?case by (simp add: nodes_freed_concat comp_def eq)
next
  case (5 p t cs)
  have eq: "concat (map (\<lambda>a. nodes_freed (case a of (i, c) \<Rightarrow> destroy_order (p @ [Child i]) c))
          (enumerate 0 (entries cs)))
      = concat (map (\<lambda>(i, c). postorder (p @ [Child i]) c) (enumerate 0 (entries cs)))"
    by (rule arg_cong [where f = concat], rule map_cong) (auto simp: 5)
  show ?case by (simp add: nodes_freed_concat comp_def eq)
qed simp_all

text \<open>Every position below \<open>p\<close> extends \<open>p\<close>.\<close>

lemma postorder_prefix: "q \<in> set (postorder p v) \<Longrightarrow> \<exists>r. q = p @ r"
proof (induction p v arbitrary: q rule: postorder.induct)
  case (4 p t ks vs)
  then show ?case by (fastforce simp: append_eq_append_conv2)
next
  case (5 p t cs)
  then show ?case by (fastforce simp: append_eq_append_conv2)
qed simp_all

lemma children_positions:
  assumes "q \<in> set (concat (map (\<lambda>(i, c). postorder (p @ [Child i]) c) (enumerate n cs)))"
  shows "\<exists>i r. n \<le> i \<and> q = p @ Child i # r"
  using assms
  by (auto simp: in_set_enumerate_eq dest!: postorder_prefix)

lemma entries_positions:
  assumes "q \<in> set (concat (map (\<lambda>(i, k, x). postorder (p @ [Key i]) k @ postorder (p @ [Val i]) x)
                              (enumerate n kxs)))"
  shows "\<exists>i r. n \<le> i \<and> (q = p @ Key i # r \<or> q = p @ Val i # r)"
  using assms
  by (auto simp: in_set_enumerate_eq dest!: postorder_prefix)

lemma distinct_children:
  assumes "\<And>c p. c \<in> set cs \<Longrightarrow> distinct (postorder p c)"
  shows "distinct (concat (map (\<lambda>(i, c). postorder (p @ [Child i]) c) (enumerate n cs)))"
  using assms
proof (induction cs arbitrary: n)
  case Nil
  then show ?case by simp
next
  case (Cons c cs)
  define C where "C = concat (map (\<lambda>(i, c). postorder (p @ [Child i]) c) (enumerate (Suc n) cs))"
  have d1: "distinct (postorder (p @ [Child n]) c)" using Cons.prems by simp
  have d2: "distinct C" unfolding C_def using Cons.prems by (intro Cons.IH) simp
  have "set (postorder (p @ [Child n]) c) \<inter> set C = {}"
  proof (rule ccontr)
    assume "set (postorder (p @ [Child n]) c) \<inter> set C \<noteq> {}"
    then obtain q where 1: "q \<in> set (postorder (p @ [Child n]) c)" and 2: "q \<in> set C" by blast
    from postorder_prefix [OF 1] obtain r where "q = (p @ [Child n]) @ r" ..
    moreover from children_positions [OF 2 [unfolded C_def]]
    obtain i r' where "Suc n \<le> i" and "q = p @ Child i # r'" by blast
    ultimately show False by simp
  qed
  moreover have "concat (map (\<lambda>(i, c). postorder (p @ [Child i]) c) (enumerate n (c # cs)))
                 = postorder (p @ [Child n]) c @ C"
    by (simp add: C_def)
  ultimately show ?case using d1 d2 by simp
qed

lemma distinct_entries:
  assumes "\<And>k x p. (k, x) \<in> set kxs \<Longrightarrow> distinct (postorder p k) \<and> distinct (postorder p x)"
  shows "distinct (concat (map (\<lambda>(i, k, x). postorder (p @ [Key i]) k @ postorder (p @ [Val i]) x)
                              (enumerate n kxs)))"
  using assms
proof (induction kxs arbitrary: n)
  case Nil
  then show ?case by simp
next
  case (Cons kx kxs)
  obtain k x where kx: "kx = (k, x)" by (cases kx)
  define C where "C = concat (map (\<lambda>(i, k, x). postorder (p @ [Key i]) k @ postorder (p @ [Val i]) x)
                                (enumerate (Suc n) kxs))"
  have d1: "distinct (postorder (p @ [Key n]) k)" and d2: "distinct (postorder (p @ [Val n]) x)"
    using Cons.prems [of k x] by (simp_all add: kx)
  have d3: "distinct C"
    unfolding C_def
  proof (rule Cons.IH)
    fix k' x' q
    assume "(k', x') \<in> set kxs"
    then have "(k', x') \<in> set (kx # kxs)" by simp
    from Cons.prems [OF this]
    show "distinct (postorder q k') \<and> distinct (postorder q x')" .
  qed
  have 1: "set (postorder (p @ [Key n]) k) \<inter> set (postorder (p @ [Val n]) x) = {}"
    by (auto dest!: postorder_prefix)
  have 2: "set (postorder (p @ [Key n]) k) \<inter> set C = {}"
  proof (rule ccontr)
    assume "set (postorder (p @ [Key n]) k) \<inter> set C \<noteq> {}"
    then obtain q where a: "q \<in> set (postorder (p @ [Key n]) k)" and b: "q \<in> set C" by blast
    from postorder_prefix [OF a] obtain r where "q = (p @ [Key n]) @ r" ..
    moreover from entries_positions [OF b [unfolded C_def]]
    obtain i r' where "Suc n \<le> i" and "q = p @ Key i # r' \<or> q = p @ Val i # r'" by blast
    ultimately show False by auto
  qed
  have 3: "set (postorder (p @ [Val n]) x) \<inter> set C = {}"
  proof (rule ccontr)
    assume "set (postorder (p @ [Val n]) x) \<inter> set C \<noteq> {}"
    then obtain q where a: "q \<in> set (postorder (p @ [Val n]) x)" and b: "q \<in> set C" by blast
    from postorder_prefix [OF a] obtain r where "q = (p @ [Val n]) @ r" ..
    moreover from entries_positions [OF b [unfolded C_def]]
    obtain i r' where "Suc n \<le> i" and "q = p @ Key i # r' \<or> q = p @ Val i # r'" by blast
    ultimately show False by auto
  qed
  have "concat (map (\<lambda>(i, k, x). postorder (p @ [Key i]) k @ postorder (p @ [Val i]) x)
                  (enumerate n (kx # kxs)))
        = postorder (p @ [Key n]) k @ postorder (p @ [Val n]) x @ C"
    by (simp add: C_def kx)
  then show ?case using d1 d2 d3 1 2 3 by auto
qed

lemma not_in_children:
  "p \<notin> set (concat (map (\<lambda>(i, c). postorder (p @ [Child i]) c) (enumerate n cs)))"
proof
  assume "p \<in> set (concat (map (\<lambda>(i, c). postorder (p @ [Child i]) c) (enumerate n cs)))"
  from children_positions [OF this] show False by auto
qed

lemma not_in_entries:
  "p \<notin> set (concat (map (\<lambda>(i, k, x). postorder (p @ [Key i]) k @ postorder (p @ [Val i]) x)
                          (enumerate n kxs)))"
proof
  assume "p \<in> set (concat (map (\<lambda>(i, k, x). postorder (p @ [Key i]) k @ postorder (p @ [Val i]) x)
                          (enumerate n kxs)))"
  from entries_positions [OF this] show False by auto
qed

lemma in_entries: "x \<in> set (entries xs) \<Longrightarrow> \<exists>ys. xs = Some ys \<and> x \<in> set ys"
  by (cases xs) simp_all

lemma distinct_postorder: "distinct (postorder p v)"
proof (induction v arbitrary: p)
  case (ObjectV t ks vs)
  have "distinct (concat (map (\<lambda>(i, k, x). postorder (p @ [Key i]) k @ postorder (p @ [Val i]) x)
                              (enumerate 0 (zip (entries ks) (entries vs)))))"
  proof (rule distinct_entries)
    fix k x q
    assume "(k, x) \<in> set (zip (entries ks) (entries vs))"
    then have "k \<in> set (entries ks)" and "x \<in> set (entries vs)"
      by (auto dest: set_zip_leftD set_zip_rightD)
    then show "distinct (postorder q k) \<and> distinct (postorder q x)"
      using ObjectV by (auto dest!: in_entries)
  qed
  then show ?case using not_in_entries [of p 0 "zip (entries ks) (entries vs)"] by simp
next
  case (ArrayV t cs)
  have "distinct (concat (map (\<lambda>(i, c). postorder (p @ [Child i]) c) (enumerate 0 (entries cs))))"
  proof (rule distinct_children)
    fix c q
    assume "c \<in> set (entries cs)"
    then show "distinct (postorder q c)"
      using ArrayV by (auto dest!: in_entries)
  qed
  then show ?case using not_in_children [of p 0 "entries cs"] by simp
qed simp_all

text \<open>The destructor of the source follows the order of the claim.\<close>

declare yajl_tree_free.simps [simp del]

lemma object_free_loop_order:
  assumes "\<And>k q. k \<in> set ks \<Longrightarrow> yajl_tree_free q (Some k) = destroy_order q k"
    and "\<And>x q. x \<in> set xs \<Longrightarrow> yajl_tree_free q (Some x) = destroy_order q x"
  shows "object_free_loop p n ks xs =
         concat (map (\<lambda>(i, k, x). destroy_order (p @ [Key i]) k @ destroy_order (p @ [Val i]) x)
                   (enumerate n (zip ks xs)))"
  using assms
proof (induction ks arbitrary: xs n)
  case Nil
  then show ?case by simp
next
  case (Cons k ks)
  then show ?case by (cases xs) simp_all
qed

lemma array_free_loop_order:
  assumes "\<And>c q. c \<in> set cs \<Longrightarrow> yajl_tree_free q (Some c) = destroy_order q c"
  shows "array_free_loop p n cs =
         concat (map (\<lambda>(i, c). destroy_order (p @ [Child i]) c) (enumerate n cs))"
  using assms by (induction cs arbitrary: n) simp_all

lemma yajl_tree_free_order: "well_tagged v \<Longrightarrow> yajl_tree_free p (Some v) = destroy_order p v"
proof (induction v arbitrary: p)
  case (Zeroed t)
  then show ?case
    by (simp add: yajl_tree_free.simps macro_defs)
next
  case (StringV t s)
  then show ?case by (simp add: yajl_tree_free.simps macro_defs)
next
  case (NumberV t r i d f)
  then show ?case by (auto simp: yajl_tree_free.simps macro_defs)
next
  case (ObjectV t ks vs)
  have wk: "\<And>k. k \<in> set (entries ks) \<Longrightarrow> well_tagged k"
    and wv: "\<And>x. x \<in> set (entries vs) \<Longrightarrow> well_tagged x"
    using ObjectV.prems by (simp_all add: list_all_iff)
  have "object_free_loop p 0 (entries ks) (entries vs) =
         concat (map (\<lambda>(i, k, x). destroy_order (p @ [Key i]) k @ destroy_order (p @ [Val i]) x)
                   (enumerate 0 (zip (entries ks) (entries vs))))"
  proof (rule object_free_loop_order)
    fix k q
    assume k: "k \<in> set (entries ks)"
    then obtain ys where "ks = Some ys" "k \<in> set ys" by (auto dest!: in_entries)
    then show "yajl_tree_free q (Some k) = destroy_order q k"
      using ObjectV.IH(1) [of ys k q] wk [OF k] by simp
  next
    fix x q
    assume x: "x \<in> set (entries vs)"
    then obtain ys where "vs = Some ys" "x \<in> set ys" by (auto dest!: in_entries)
    then show "yajl_tree_free q (Some x) = destroy_order q x"
      using ObjectV.IH(2) [of ys x q] wv [OF x] by simp
  qed
  with ObjectV.prems show ?case
    by (simp add: yajl_tree_free.simps macro_defs)
next
  case (ArrayV t cs)
  have wc: "\<And>c. c \<in> set (entries cs) \<Longrightarrow> well_tagged c"
    using ArrayV.prems by (simp add: list_all_iff)
  have "array_free_loop p 0 (entries cs) =
         concat (map (\<lambda>(i, c). destroy_order (p @ [Child i]) c) (enumerate 0 (entries cs)))"
  proof (rule array_free_loop_order)
    fix c q
    assume c: "c \<in> set (entries cs)"
    then obtain ys where "cs = Some ys" "c \<in> set ys" by (auto dest!: in_entries)
    then show "yajl_tree_free q (Some c) = destroy_order q c"
      using ArrayV.IH [of ys c q] wc [OF c] by simp
  qed
  with ArrayV.prems show ?case
    by (simp add: yajl_tree_free.simps macro_defs)
qed

text \<open>The trees of documents are well tagged.\<close>

lemma well_tagged_tree_of: "well_tagged (tree_of e d)"
proof (induction d)
  case (JArray xs)
  then show ?case by (auto simp: some_unless_empty_def list_all_iff)
next
  case (JObject kvs)
  then show ?case by (fastforce simp: some_unless_empty_def list_all_iff)
qed (simp_all add: number_stores_def Let_def)

section \<open>The claims\<close>

lemmas handler_defs =
  yajl_tree_parse_def yajl_parse_def yajl_alloc_def yajl_free_def
  handle_null_def handle_boolean_def handle_string_def handle_number_def
  handle_start_map_def handle_end_map_def handle_start_array_def handle_end_array_def
  context_push_def context_pop_def context_add_value_def object_add_keyval_def
  array_add_value_def value_alloc_def malloc_def realloc_def free_def
  YAJL_IS_STRING_def YAJL_IS_OBJECT_def YAJL_IS_ARRAY_def YAJL_IS_NUMBER_def
  YAJL_TO_STRING_def YAJL_TO_NUMBER_def YAJL_TO_OBJECT_def YAJL_TO_ARRAY_def

subsection \<open>C1: a failed parse releases what it built\<close>

text \<open>
  C1. The claim: on every failure \<^verbatim>\<open>yajl_tree_parse\<close> returns an error and has released
  every value and frame built so far, leaving no allocation behind. The code returns
  \<^verbatim>\<open>NULL\<close> from both failure exits without releasing anything, the tokenizer handle
  included (only the successful exit calls \<^verbatim>\<open>yajl_free\<close>). For the unterminated input
  \<^verbatim>\<open>["a"\<close> the tokenizer delivers the start of an array and a string and reports that
  input is missing; the call returns \<^verbatim>\<open>NULL\<close> and leaves five blocks (the array value,
  its stack element, the string value, its buffer, the array of children) and the handle.
\<close>

theorem failed_parse_leaks:
  "yajl_tree_parse e
     \<lparr>feed_events = [Ev_start_array, Ev_string ''a''],
      feed_status = yajl_status_insufficient_data,
      complete_events = [], complete_status = yajl_status_ok\<rparr>
     \<lparr>live = 0, handles = 0, outcomes = []\<rparr>
   = Ret (None, \<lparr>live = 5, handles = 1, outcomes = []\<rparr>)"
  by (simp add: handler_defs)

subsection \<open>C2: the number handler builds a value of the number kind\<close>

text \<open>
  C2. The claim: a number event yields a value of the number kind, with the literal as
  its raw text, distinguishable from a string. The code asks \<^verbatim>\<open>value_alloc\<close> for
  \<^verbatim>\<open>YAJL_TYPE_STRING\<close>: parsing the document that is one number literal \<open>s\<close> either
  stops at the store through \<^verbatim>\<open>YAJL_TO_NUMBER (v)\<close> (where the macro yields \<^verbatim>\<open>NULL\<close> for
  a string-tagged value), or yields a value that holds \<open>s\<close> as raw text and carries the
  string tag, so that \<^verbatim>\<open>YAJL_IS_STRING\<close> holds of it and \<^verbatim>\<open>YAJL_IS_NUMBER\<close> does not.
\<close>

theorem number_event_builds_string_tag:
  "yajl_tree_parse e (document_run (JNumber s)) \<lparr>live = 0, handles = 0, outcomes = []\<rparr>
     = (if to_number_unchecked e
        then Ret (Some (number_stores e YAJL_TYPE_STRING s),
                  \<lparr>live = 2, handles = 0, outcomes = []\<rparr>)
        else Crash Null_dereference)
   \<and> YAJL_IS_STRING (number_stores e YAJL_TYPE_STRING s)
   \<and> \<not> YAJL_IS_NUMBER (number_stores e YAJL_TYPE_STRING s)
   \<and> value_raw (number_stores e YAJL_TYPE_STRING s) = s"
  by (simp add: handler_defs document_run_def number_stores_def Let_def)

subsection \<open>C3: only strings become object keys\<close>

text \<open>
  C3. The claim: with an object on top and no pending key, a value that is not a string
  is rejected (as for \<^verbatim>\<open>{1:2}\<close>) and no such value is ever recorded as a key.
  \<^verbatim>\<open>context_add_value\<close> tests the tag, and \<^verbatim>\<open>handle_number\<close> gives its value the string
  tag: for the events of \<^verbatim>\<open>{1:2}\<close> the parse is not aborted. It either stops at the null
  store of \<^verbatim>\<open>handle_number\<close>, or succeeds with an object whose only key is the number 1.
\<close>

theorem number_event_taken_as_object_key:
  "yajl_tree_parse e
     \<lparr>feed_events = [Ev_start_map, Ev_number ''1'', Ev_number ''2'', Ev_end_map],
      feed_status = yajl_status_ok,
      complete_events = [], complete_status = yajl_status_ok\<rparr>
     \<lparr>live = 0, handles = 0, outcomes = []\<rparr>
   = (if to_number_unchecked e
      then Ret (Some (ObjectV YAJL_TYPE_OBJECT
                        (Some [number_stores e YAJL_TYPE_STRING ''1''])
                        (Some [number_stores e YAJL_TYPE_STRING ''2''])),
                \<lparr>live = 7, handles = 0, outcomes = []\<rparr>)
      else Crash Null_dereference)"
  by (simp add: handler_defs)

subsection \<open>C4: which of the two numeric values are present\<close>

text \<open>
  \<open>number_stores\<close> sets each flag when its conversion left \<^verbatim>\<open>errno\<close> at 0 and \<^verbatim>\<open>endptr\<close>
  at a NUL, the one independently of the other.
\<close>

lemma number_stores_flags:
  "(YAJL_NUMBER_INT_VALID \<in> flags (number_stores e t s)
      \<longleftrightarrow> conv_errno (strtoll e s) = 0 \<and> at_nul s (conv_end (strtoll e s)))
   \<and> (YAJL_NUMBER_DOUBLE_VALID \<in> flags (number_stores e t s)
      \<longleftrightarrow> conv_errno (strtod e s) = 0 \<and> at_nul s (conv_end (strtod e s)))"
  by (simp add: number_stores_def Let_def)



subsection \<open>C5: a second top-level value\<close>

text \<open>
  With an empty stack and a root already set, \<^verbatim>\<open>context_add_value\<close> has no error
  return: it asserts \<^verbatim>\<open>ctx->root == NULL\<close>, stores the value and returns 0.
\<close>

lemma add_value_second_root:
  "context_add_value e \<lparr>stack = [], root = Some v0\<rparr> v h
     = (if NDEBUG e then Ret (E_OK, \<lparr>stack = [], root = Some v\<rparr>, h)
        else Crash Assert_failed)"
  by (simp add: context_add_value_def)

text \<open>
  C5. The claim: \<^verbatim>\<open>context_add_value\<close> called with an empty stack when a root exists
  fails with an error, the parse returns an error, and the earlier root is neither
  replaced nor discarded. The code means the same (its comment reads ``This is the only
  value'', and it asserts that no root is set) but does not return the error. For the
  events of \<^verbatim>\<open>true null\<close> a build with assertions stops at the assertion; a build
  without them reports success and returns the second value as the tree, and the first
  value stays allocated with no pointer to it (two blocks are live, the tree returned
  holds one).
\<close>

theorem second_top_level_value:
  "yajl_tree_parse e
     \<lparr>feed_events = [Ev_boolean True, Ev_null], feed_status = yajl_status_ok,
      complete_events = [], complete_status = yajl_status_ok\<rparr>
     \<lparr>live = 0, handles = 0, outcomes = []\<rparr>
   = (if NDEBUG e
      then Ret (Some (Zeroed YAJL_TYPE_NULL), \<lparr>live = 2, handles = 0, outcomes = []\<rparr>)
      else Crash Assert_failed)"
  by (simp add: handler_defs)

subsection \<open>C6: the entries of an object keep their order\<close>

text \<open>
  For every document that is an object and is parsed to its end, the tree is an object
  value whose keys are the keys of the document and whose values are the trees of its
  values, entry by entry in the order of arrival; a key that occurs twice gives two
  entries. The values are built by the same rule, so the same holds of every object
  inside them.
\<close>

lemma object_entries_in_arrival_order:
  assumes "numbers_ok e (JObject kvs)" and "outcomes h = []" and "tokenizes run (JObject kvs)"
  shows "\<exists>ks vs h'.
           yajl_tree_parse e run h = Ret (Some (ObjectV YAJL_TYPE_OBJECT ks vs), h')
           \<and> entries ks = map (\<lambda>(k, x). StringV YAJL_TYPE_STRING k) kvs
           \<and> entries vs = map (\<lambda>(k, x). tree_of e x) kvs"
  using parse_document [OF assms] by (simp add: some_unless_empty_def)

text \<open>
  C6. The claim: the entries of a parsed object are in the order of arrival and
  duplicate keys are kept, so that \<^verbatim>\<open>{"a":1,"a":2}\<close> gives an object of two entries, both
  with key \<^verbatim>\<open>a\<close>. \<^verbatim>\<open>object_add_keyval\<close> does append each pair and never compares keys,
  but the values of the example are numbers, and \<^verbatim>\<open>handle_number\<close> writes them through
  \<^verbatim>\<open>YAJL_TO_NUMBER (v)\<close> of a value it has tagged \<^verbatim>\<open>YAJL_TYPE_STRING\<close> (C2). Where the
  macro tests the tag, as \<^verbatim>\<open>YAJL_TO_OBJECT\<close> and \<^verbatim>\<open>YAJL_TO_ARRAY\<close> do wherever this file
  uses them, the parse of the example stops at the first number, at the store through
  \<^verbatim>\<open>NULL\<close>, and no object is built. Only where the macro is an unchecked cast does the
  example give its two entries (with string-tagged values).
\<close>

theorem duplicate_keys_example:
  "yajl_tree_parse e
     (document_run (JObject [(''a'', JNumber ''1''), (''a'', JNumber ''2'')]))
     \<lparr>live = 0, handles = 0, outcomes = []\<rparr>
   = (if to_number_unchecked e
      then Ret (Some (ObjectV YAJL_TYPE_OBJECT
                        (Some [StringV YAJL_TYPE_STRING ''a'', StringV YAJL_TYPE_STRING ''a''])
                        (Some [number_stores e YAJL_TYPE_STRING ''1'',
                               number_stores e YAJL_TYPE_STRING ''2''])),
                \<lparr>live = 11, handles = 0, outcomes = []\<rparr>)
      else Crash Null_dereference)"
  by (simp add: handler_defs document_run_def)

subsection \<open>C7: a limit on the nesting depth\<close>

lemma depth_nested: "depth (nested n) = Suc n"
  by (induction n) simp_all

lemma no_number_nested: "\<not> has_number (nested n)"
  by (induction n) simp_all

text \<open>
  C7. The claim: some limit exists such that every input nested deeper fails. The code
  has no such limit: \<^verbatim>\<open>context_push\<close> fails only when \<^verbatim>\<open>malloc\<close> does. Whatever the
  limit, the document of that many arrays and one more is parsed into a tree.
\<close>

theorem nesting_limit_counterexample:
  "\<not> (\<exists>limit. \<forall>d. limit < depth d \<longrightarrow>
        (\<exists>h'. yajl_tree_parse (example_env False False)
                 (document_run d) empty_heap = Ret (None, h')))"
proof
  assume "\<exists>limit. \<forall>d. limit < depth d \<longrightarrow>
        (\<exists>h'. yajl_tree_parse (example_env False False)
                 (document_run d) empty_heap = Ret (None, h'))"
  then obtain limit where
    l: "\<forall>d. limit < depth d \<longrightarrow>
        (\<exists>h'. yajl_tree_parse (example_env False False)
                 (document_run d) empty_heap = Ret (None, h'))" ..
  have "limit < depth (nested limit)" by (simp add: depth_nested)
  with l obtain h' where
    "yajl_tree_parse (example_env False False)
       (document_run (nested limit)) empty_heap = Ret (None, h')" by blast
  moreover have "outcomes empty_heap = []" by (simp add: empty_heap_def)
  ultimately show False
    using parse_document [of "example_env False False" "nested limit"
        empty_heap "document_run (nested limit)"]
    by (simp add: numbers_ok_def no_number_nested tokenizes_document_run)
qed

text \<open>
  C7, as the code has it: nesting is not limited. For every \<open>n\<close>, the document of depth
  \<open>n + 1\<close> is parsed into its tree when no allocation fails; \<^verbatim>\<open>context_push\<close> reports
  no error but \<^verbatim>\<open>ENOMEM\<close>, and that only when \<^verbatim>\<open>malloc\<close> has failed.
\<close>

theorem nesting_is_not_limited:
  assumes "outcomes h = []" and "tokenizes run (nested n)"
  shows "depth (nested n) = Suc n
         \<and> yajl_tree_parse e run h
           = Ret (Some (tree_of e (nested n)), h\<lparr>live := live h + blocks (tree_of e (nested n))\<rparr>)
         \<and> (\<forall>ctx v h0 r ctx' h1.
               context_push e ctx v h0 = Ret (r, ctx', h1) \<and> r \<noteq> E_OK
               \<longrightarrow> r = ENOMEM \<and> \<not> fst (malloc h0))"
proof -
  have "yajl_tree_parse e run h
        = Ret (Some (tree_of e (nested n)), h\<lparr>live := live h + blocks (tree_of e (nested n))\<rparr>)"
    using parse_document [OF _ assms, of e] by (simp add: numbers_ok_def no_number_nested)
  moreover have "\<forall>ctx v h0 r ctx' h1.
               context_push e ctx v h0 = Ret (r, ctx', h1) \<and> r \<noteq> E_OK
               \<longrightarrow> r = ENOMEM \<and> \<not> fst (malloc h0)"
    by (auto simp: context_push_def split: prod.splits if_splits)
  ultimately show ?thesis using depth_nested [of n] by blast
qed

theorem nesting_is_not_limited_witness:
  "outcomes empty_heap = [] \<and> tokenizes (document_run (nested 3)) (nested 3)
   \<and> depth (nested 3) = 4
   \<and> yajl_tree_parse (example_env False False)
        (document_run (nested 3)) empty_heap
     = Ret (Some (ArrayV YAJL_TYPE_ARRAY (Some [ArrayV YAJL_TYPE_ARRAY (Some
              [ArrayV YAJL_TYPE_ARRAY (Some [ArrayV YAJL_TYPE_ARRAY None])])])),
            \<lparr>live = 7, handles = 0, outcomes = []\<rparr>)"
proof -
  have 1: "outcomes empty_heap = []" by (simp add: empty_heap_def)
  have 2: "tokenizes (document_run (nested 3)) (nested 3)" by (rule tokenizes_document_run)
  have 3: "nested 3 = JArray [JArray [JArray [JArray []]]]" by (simp add: numeral_3_eq_3)
  show ?thesis
    using nesting_is_not_limited [OF 1 2, of "example_env False False"] 1 2
    by (simp add: 3 some_unless_empty_def empty_heap_def)
qed

subsection \<open>C8: the order of destruction\<close>

text \<open>
  C8. For every well-tagged tree, the blocks \<^verbatim>\<open>yajl_tree_free\<close> releases are, in this
  order: for an object, entry by entry in entry order the key and then the value (each
  with all that is below it), then the two arrays of the object and the object; for an
  array, the children in order, then the array of children and the array; for a string
  (and a number) the buffer and then the value; for null, true and false the value alone.
  The nodes are released in post-order, and no node occurs twice in that order: every
  node is released exactly once. \<open>destroy_order\<close> and \<open>postorder\<close> are written from the
  words of the claim; \<open>yajl_tree_free\<close> is the destructor of the source. Every tree the
  parser returns for a document is well tagged (\<open>well_tagged_tree_of\<close>).
\<close>

theorem yajl_tree_free_post_order:
  assumes "well_tagged v"
  shows "yajl_tree_free p (Some v) = destroy_order p v
         \<and> nodes_freed (yajl_tree_free p (Some v)) = postorder p v
         \<and> distinct (postorder p v)"
  using yajl_tree_free_order [OF assms, of p]
  by (simp add: nodes_freed_destroy_order distinct_postorder)

theorem yajl_tree_free_post_order_witness:
  "well_tagged
     (ObjectV YAJL_TYPE_OBJECT
        (Some [StringV YAJL_TYPE_STRING ''a'', StringV YAJL_TYPE_STRING ''b''])
        (Some [NumberV YAJL_TYPE_STRING ''1'' 0 0 {},
               ArrayV YAJL_TYPE_ARRAY (Some [Zeroed YAJL_TYPE_NULL, Zeroed YAJL_TYPE_TRUE])]))
   \<and> yajl_tree_free []
     (Some (ObjectV YAJL_TYPE_OBJECT
        (Some [StringV YAJL_TYPE_STRING ''a'', StringV YAJL_TYPE_STRING ''b''])
        (Some [NumberV YAJL_TYPE_STRING ''1'' 0 0 {},
               ArrayV YAJL_TYPE_ARRAY (Some [Zeroed YAJL_TYPE_NULL, Zeroed YAJL_TYPE_TRUE])])))
     = [([Key 0], Buffer), ([Key 0], Node), ([Val 0], Buffer), ([Val 0], Node),
        ([Key 1], Buffer), ([Key 1], Node),
        ([Val 1, Child 0], Node), ([Val 1, Child 1], Node),
        ([Val 1], Children_array), ([Val 1], Node),
        ([], Keys_array), ([], Values_array), ([], Node)]
   \<and> nodes_freed (yajl_tree_free []
     (Some (ObjectV YAJL_TYPE_OBJECT
        (Some [StringV YAJL_TYPE_STRING ''a'', StringV YAJL_TYPE_STRING ''b''])
        (Some [NumberV YAJL_TYPE_STRING ''1'' 0 0 {},
               ArrayV YAJL_TYPE_ARRAY (Some [Zeroed YAJL_TYPE_NULL, Zeroed YAJL_TYPE_TRUE])]))))
     = [[Key 0], [Val 0], [Key 1], [Val 1, Child 0], [Val 1, Child 1], [Val 1], []]"
proof -
  let ?v = "ObjectV YAJL_TYPE_OBJECT
        (Some [StringV YAJL_TYPE_STRING ''a'', StringV YAJL_TYPE_STRING ''b''])
        (Some [NumberV YAJL_TYPE_STRING ''1'' 0 0 {},
               ArrayV YAJL_TYPE_ARRAY (Some [Zeroed YAJL_TYPE_NULL, Zeroed YAJL_TYPE_TRUE])])"
  have 1: "well_tagged ?v" by simp
  show ?thesis
    using yajl_tree_free_post_order [OF 1, of "[]"] 1 by simp
qed

subsection \<open>C9: parsing twice\<close>

text \<open>
  C9. The claim: for every well-formed document, two calls of \<^verbatim>\<open>yajl_tree_parse\<close> give
  structurally equal trees. What a call does with a well-formed document, when no
  allocation fails, is decided by the document alone, whatever allocation account the
  call starts on (the one an earlier call left, for instance): a document without a
  number is parsed into its tree, and so is one with a number where \<^verbatim>\<open>YAJL_TO_NUMBER\<close>
  is an unchecked cast. Where the macro tests the tag, as \<^verbatim>\<open>YAJL_TO_OBJECT\<close> and
  \<^verbatim>\<open>YAJL_TO_ARRAY\<close> do wherever this file uses them, a call on a document with a number
  returns no tree: it stops at the store through \<^verbatim>\<open>NULL\<close> in \<^verbatim>\<open>handle_number\<close> (C2). For
  \<^verbatim>\<open>[1]\<close> neither call gives a tree to compare.
\<close>

theorem parse_of_document:
  assumes "outcomes h = []" and "tokenizes run d"
  shows "yajl_tree_parse e run h
         = (if numbers_ok e d
            then Ret (Some (tree_of e d), h\<lparr>live := live h + blocks (tree_of e d)\<rparr>)
            else Crash Null_dereference)"
  using parse_document [OF _ assms] parse_stops_at_number [OF _ assms] by simp

theorem parse_of_document_witness:
  "outcomes empty_heap = []
   \<and> tokenizes (document_run (JArray [JNumber ''1''])) (JArray [JNumber ''1''])
   \<and> yajl_tree_parse (example_env False False) (document_run (JArray [JNumber ''1'']))
        empty_heap = Crash Null_dereference
   \<and> tokenizes (document_run (JArray [JString ''1''])) (JArray [JString ''1''])
   \<and> yajl_tree_parse (example_env False False) (document_run (JArray [JString ''1'']))
        empty_heap
      = Ret (Some (ArrayV YAJL_TYPE_ARRAY (Some [StringV YAJL_TYPE_STRING ''1''])),
             \<lparr>live = 4, handles = 0, outcomes = []\<rparr>)"
proof -
  let ?e = "example_env False False"
  let ?d = "JArray [JNumber ''1'']"
  let ?d' = "JArray [JString ''1'']"
  have 1: "outcomes empty_heap = []" by (simp add: empty_heap_def)
  have 2: "tokenizes (document_run ?d) ?d" "tokenizes (document_run ?d') ?d'"
    by (rule tokenizes_document_run)+
  have 3: "\<not> numbers_ok ?e ?d" "numbers_ok ?e ?d'"
    by (simp_all add: numbers_ok_def example_env_def)
  show ?thesis
    using parse_of_document [OF 1 2(1), of ?e] parse_of_document [OF 1 2(2), of ?e] 1 2 3
    by (simp add: empty_heap_def some_unless_empty_def)
qed

subsection \<open>C10: the stack holds containers\<close>

text \<open>
  C10. In every state a parse reaches, every element of the stack holds a value tagged
  as an object or as an array; and whenever a callback leaves the stack longer than it
  found it, the callback is the start of a map or of an array and the new top is a fresh
  empty container with no pending key.
\<close>

theorem stack_holds_containers:
  assumes "reachable e ctx h"
  shows "list_all is_container (stack ctx)
         \<and> (\<forall>ev s ctx' h'. callbacks e ev ctx h = Ret (s, ctx', h')
               \<and> length (stack ctx) < length (stack ctx') \<longrightarrow>
             (ev = Ev_start_map
                \<and> stack ctx' = \<lparr>elem_key = None, elem_value = ObjectV YAJL_TYPE_OBJECT None None\<rparr>
                                # stack ctx)
             \<or> (ev = Ev_start_array
                \<and> stack ctx' = \<lparr>elem_key = None, elem_value = ArrayV YAJL_TYPE_ARRAY None\<rparr>
                                # stack ctx))"
proof
  from assms show "list_all is_container (stack ctx)"
    by (induction rule: reachable.induct) (auto dest: containers_callbacks)
next
  show "\<forall>ev s ctx' h'. callbacks e ev ctx h = Ret (s, ctx', h')
               \<and> length (stack ctx) < length (stack ctx') \<longrightarrow>
             (ev = Ev_start_map
                \<and> stack ctx' = \<lparr>elem_key = None, elem_value = ObjectV YAJL_TYPE_OBJECT None None\<rparr>
                                # stack ctx)
             \<or> (ev = Ev_start_array
                \<and> stack ctx' = \<lparr>elem_key = None, elem_value = ArrayV YAJL_TYPE_ARRAY None\<rparr>
                                # stack ctx)"
    using frames_pushed_by_start by blast
qed

theorem stack_holds_containers_witness:
  "reachable (example_env False False)
     \<lparr>stack = [\<lparr>elem_key = Some (StringV YAJL_TYPE_STRING ''k''),
                 elem_value = ObjectV YAJL_TYPE_OBJECT None None\<rparr>,
               \<lparr>elem_key = None, elem_value = ArrayV YAJL_TYPE_ARRAY None\<rparr>],
       root = None\<rparr>
     \<lparr>live = 6, handles = 0, outcomes = []\<rparr>
   \<and> list_all is_container
       [\<lparr>elem_key = Some (StringV YAJL_TYPE_STRING ''k''),
          elem_value = ObjectV YAJL_TYPE_OBJECT None None\<rparr>,
        \<lparr>elem_key = None, elem_value = ArrayV YAJL_TYPE_ARRAY None\<rparr>]"
proof -
  let ?e = "example_env False False"
  let ?c1 = "\<lparr>stack = [\<lparr>elem_key = None, elem_value = ArrayV YAJL_TYPE_ARRAY None\<rparr>],
              root = None\<rparr>"
  let ?c2 = "\<lparr>stack = [\<lparr>elem_key = None, elem_value = ObjectV YAJL_TYPE_OBJECT None None\<rparr>,
                       \<lparr>elem_key = None, elem_value = ArrayV YAJL_TYPE_ARRAY None\<rparr>],
              root = None\<rparr>"
  let ?c3 = "\<lparr>stack = [\<lparr>elem_key = Some (StringV YAJL_TYPE_STRING ''k''),
                         elem_value = ObjectV YAJL_TYPE_OBJECT None None\<rparr>,
                       \<lparr>elem_key = None, elem_value = ArrayV YAJL_TYPE_ARRAY None\<rparr>],
              root = None\<rparr>"
  have 0: "reachable ?e \<lparr>stack = [], root = None\<rparr> \<lparr>live = 0, handles = 0, outcomes = []\<rparr>"
    by (rule reachable.start)
  have "callbacks ?e Ev_start_array \<lparr>stack = [], root = None\<rparr>
          \<lparr>live = 0, handles = 0, outcomes = []\<rparr>
        = Ret (STATUS_CONTINUE, ?c1, \<lparr>live = 2, handles = 0, outcomes = []\<rparr>)"
    by (simp add: handler_defs)
  from reachable.step [OF 0 this]
  have 1: "reachable ?e ?c1 \<lparr>live = 2, handles = 0, outcomes = []\<rparr>" .
  have "callbacks ?e Ev_start_map ?c1 \<lparr>live = 2, handles = 0, outcomes = []\<rparr>
        = Ret (STATUS_CONTINUE, ?c2, \<lparr>live = 4, handles = 0, outcomes = []\<rparr>)"
    by (simp add: handler_defs)
  from reachable.step [OF 1 this]
  have 2: "reachable ?e ?c2 \<lparr>live = 4, handles = 0, outcomes = []\<rparr>" .
  have "callbacks ?e (Ev_map_key ''k'') ?c2 \<lparr>live = 4, handles = 0, outcomes = []\<rparr>
        = Ret (STATUS_CONTINUE, ?c3, \<lparr>live = 6, handles = 0, outcomes = []\<rparr>)"
    by (simp add: handler_defs)
  from reachable.step [OF 2 this]
  have 3: "reachable ?e ?c3 \<lparr>live = 6, handles = 0, outcomes = []\<rparr>" .
  show ?thesis
    using stack_holds_containers [OF 3] 3 by simp
qed

end
